theory Spec2Isabelle
  imports Main
begin

section \<open>The queue server (server.js) as a state machine\<close>

text \<open>
  The server keeps its whole state in module-level variables and changes it in the
  handlers of its HTTP routes. Each handler is modelled as a function from the state
  before the request to the outcome of the request, the state after it and the effects
  it had on the outside world (broadcasts, the snapshot file, the console), in the
  order in which the handler produces them.

  The station name of a request is an arbitrary string, and the handlers use it as a
  property key on plain objects (\<^verbatim>\<open>queues[service]\<close>). A plain object inherits the
  properties of \<^verbatim>\<open>Object.prototype\<close>, so the model keeps JavaScript's property lookup:
  own properties first, then the inherited ones, then \<^verbatim>\<open>undefined\<close>.
\<close>

subsection \<open>Tickets and JavaScript values\<close>

text \<open>The object built in the handler of POST /queue: \<^verbatim>\<open>{ number, service, timestamp }\<close>.\<close>

record user =
  number :: string
  service :: string
  timestamp :: nat

text \<open>
  The values that the four state objects can hold or yield on lookup. \<open>Num\<close> is a
  number with a natural value: every number of this program is a counter that starts at
  0 and grows by whole steps, and JavaScript's doubles are exact on such values below
  \<open>2 ^ 53\<close>; the spec likewise takes the sequence to be an unbounded integer.
  \<open>Builtin k\<close> is the value of the property \<open>k\<close> of \<^verbatim>\<open>Object.prototype\<close>:
  a built-in function, or \<^verbatim>\<open>Object.prototype\<close> itself for \<^verbatim>\<open>__proto__\<close>.
\<close>

datatype jsval =
    Undefined
  | Null
  | NaN
  | Num nat
  | User user
  | Arr "user list"
  | Builtin string

text \<open>An object is the list of its own properties in insertion order (the order of \<^verbatim>\<open>for ... in\<close>).\<close>

type_synonym jsobject = "(string \<times> jsval) list"

definition object_prototype_names :: "string list" where
  "object_prototype_names =
     [''constructor'', ''__defineGetter__'', ''__defineSetter__'', ''hasOwnProperty'',
      ''__lookupGetter__'', ''__lookupSetter__'', ''isPrototypeOf'',
      ''propertyIsEnumerable'', ''toString'', ''valueOf'', ''__proto__'',
      ''toLocaleString'']"

text \<open>\<^verbatim>\<open>obj[k]\<close> as a read.\<close>

definition js_get :: "jsobject \<Rightarrow> string \<Rightarrow> jsval" where
  "js_get obj k =
     (case map_of obj k of
        Some v \<Rightarrow> v
      | None \<Rightarrow> if k \<in> set object_prototype_names then Builtin k else Undefined)"

text \<open>Replacing or adding an own property; a new key goes to the end.\<close>

fun own_set :: "string \<Rightarrow> jsval \<Rightarrow> jsobject \<Rightarrow> jsobject" where
  "own_set k v [] = [(k, v)]"
| "own_set k v ((k', v') # rest) =
     (if k = k' then (k, v) # rest else (k', v') # own_set k v rest)"

text \<open>
  \<^verbatim>\<open>obj[k] = v\<close>. The key \<^verbatim>\<open>__proto__\<close> is the inherited accessor: the assignment
  creates no own property. The two assignments of the program that can reach it carry
  \<^verbatim>\<open>NaN\<close>, which the setter ignores, or the object's present prototype, which it
  installs again; both leave the object as it is.
\<close>

definition js_set :: "string \<Rightarrow> jsval \<Rightarrow> jsobject \<Rightarrow> jsobject" where
  "js_set k v obj = (if k = ''__proto__'' then obj else own_set k v obj)"

text \<open>Truthiness, as tested by \<^verbatim>\<open>if (x)\<close> and \<^verbatim>\<open>!x\<close>.\<close>

fun truthy :: "jsval \<Rightarrow> bool" where
  "truthy Undefined = False"
| "truthy Null = False"
| "truthy NaN = False"
| "truthy (Num n) = (n \<noteq> 0)"
| "truthy (User u) = True"
| "truthy (Arr q) = True"
| "truthy (Builtin k) = True"

text \<open>
  ToNumber: \<^verbatim>\<open>null\<close> is 0, an empty array is 0 (through the empty string), every
  other non-number here is \<^verbatim>\<open>NaN\<close>.
\<close>

fun js_to_number :: "jsval \<Rightarrow> jsval" where
  "js_to_number (Num n) = Num n"
| "js_to_number Null = Num 0"
| "js_to_number (Arr q) = (if q = [] then Num 0 else NaN)"
| "js_to_number v = NaN"

text \<open>The value of \<^verbatim>\<open>++x\<close> for an old value of \<open>x\<close>.\<close>

definition js_incr :: "jsval \<Rightarrow> jsval" where
  "js_incr v = (case js_to_number v of Num n \<Rightarrow> Num (Suc n) | _ \<Rightarrow> NaN)"

text \<open>Decimal digits of a natural number, as number-to-string conversion prints them.\<close>

definition digit_char :: "nat \<Rightarrow> char" where
  "digit_char d = ''0123456789'' ! d"

fun show_nat :: "nat \<Rightarrow> string" where
  "show_nat n =
     (if n < 10 then [digit_char n] else show_nat (n div 10) @ [digit_char (n mod 10)])"

declare show_nat.simps [simp del]

text \<open>The string of a number in a template literal; applied to results of \<open>js_incr\<close> only.\<close>

fun number_string :: "jsval \<Rightarrow> string" where
  "number_string (Num n) = show_nat n"
| "number_string v = ''NaN''"

text \<open>
  \<^verbatim>\<open>x.number\<close> for a truthy \<open>x\<close>: the field of a ticket, \<^verbatim>\<open>undefined\<close> (\<open>None\<close>)
  on every other value.
\<close>

fun prop_number :: "jsval \<Rightarrow> string option" where
  "prop_number (User u) = Some (number u)"
| "prop_number v = None"

definition template_string :: "string option \<Rightarrow> string" where
  "template_string x = (case x of Some s \<Rightarrow> s | None \<Rightarrow> ''undefined'')"

text \<open>
  \<^verbatim>\<open>x.length\<close> for a truthy \<open>x\<close>: the length of an array, the declared number of
  parameters of a built-in function, \<^verbatim>\<open>undefined\<close> otherwise.
\<close>

definition builtin_length :: "string \<Rightarrow> nat option" where
  "builtin_length k =
     map_of [(''constructor'', 1), (''__defineGetter__'', 2), (''__defineSetter__'', 2),
             (''hasOwnProperty'', 1), (''__lookupGetter__'', 1), (''__lookupSetter__'', 1),
             (''isPrototypeOf'', 1), (''propertyIsEnumerable'', 1), (''toString'', 0),
             (''valueOf'', 0), (''toLocaleString'', 0)] k"

fun js_length :: "jsval \<Rightarrow> nat option" where
  "js_length (Arr q) = Some (length q)"
| "js_length (Builtin k) = builtin_length k"
| "js_length v = None"

text \<open>\<^verbatim>\<open>s.charAt(0).toUpperCase()\<close> on ASCII; the empty string stays empty.\<close>

definition to_upper :: "char \<Rightarrow> char" where
  "to_upper c =
     (case map_of (zip ''abcdefghijklmnopqrstuvwxyz'' ''ABCDEFGHIJKLMNOPQRSTUVWXYZ'') c of
        Some C \<Rightarrow> C
      | None \<Rightarrow> c)"

definition prefix_of :: "string \<Rightarrow> string" where
  "prefix_of svc = (case svc of [] \<Rightarrow> [] | c # _ \<Rightarrow> [to_upper c])"

subsection \<open>The state\<close>

record state =
  queues :: jsobject
  currentServing :: jsobject
  lastServed :: jsobject
  queueNumbers :: jsobject
  servedHistory :: "user list"
  totalServed :: nat
  totalWaitTime :: nat
  currentAnnouncement :: string

definition stations :: "string list" where
  "stations = [''Charging'', ''Releasing'', ''Extraction'']"

definition init_state :: state where
  "init_state =
     \<lparr> queues = [(''Charging'', Arr []), (''Releasing'', Arr []), (''Extraction'', Arr [])],
       currentServing = [(''Charging'', Null), (''Releasing'', Null), (''Extraction'', Null)],
       lastServed = [(''Charging'', Null), (''Releasing'', Null), (''Extraction'', Null)],
       queueNumbers = [(''Charging'', Num 0), (''Releasing'', Num 0), (''Extraction'', Num 0)],
       servedHistory = [],
       totalServed = 0,
       totalWaitTime = 0,
       currentAnnouncement = [] \<rparr>"

text \<open>The \<^verbatim>\<open>settings\<close> object; no code path writes to it.\<close>

definition averageServiceTime :: nat where
  "averageServiceTime = 5"

definition maxQueueLength :: nat where
  "maxQueueLength = 100"

subsection \<open>Outcomes, effects and the environment\<close>

text \<open>
  The first three errors are the 400 answers the handlers send themselves. The last two
  are exceptions that leave the handler: a \<^verbatim>\<open>TypeError\<close> of the language, and the
  exception of \<^verbatim>\<open>fs.writeFileSync\<close> when the snapshot cannot be written.
\<close>

datatype error =
    UnknownStation
  | NothingToRecall
  | NoDataToExport
  | TypeError
  | WriteFailed

fun is_fault :: "error \<Rightarrow> bool" where
  "is_fault TypeError = True"
| "is_fault WriteFailed = True"
| "is_fault e = False"

text \<open>
  One entry of the answer of GET /queue. \<open>current = None\<close> is \<^verbatim>\<open>null\<close>;
  \<open>Some x\<close> is the object \<^verbatim>\<open>{ number: x }\<close>.
\<close>

record station_status =
  current :: "string option option"
  waiting :: "string list"
  estimatedWaitTime :: nat

datatype reply =
    StatusReply "(string \<times> station_status) list"
  | NumberReply string
  | CurrentReply "string option"
  | LastNumberReply "string option"
  | AnnouncementSet
  | AnnouncementReply string
  | ResetDone
  | ExportRows "(string \<times> string) list"

datatype effect =
    Notify string
  | WriteSnapshot state
  | UnlinkSnapshot
  | ConsoleError string
  | ConsoleLog string

text \<open>
  What a request takes from outside the program: the clock (\<^verbatim>\<open>Date.now()\<close>), whether
  \<^verbatim>\<open>fs.writeFileSync\<close> succeeds, and whether \<^verbatim>\<open>fs.unlink\<close> succeeds.
\<close>

record env =
  now :: nat
  write_ok :: bool
  unlink_ok :: bool

type_synonym 'a result = "(error + 'a) \<times> state \<times> effect list"

subsection \<open>The functions of server.js\<close>

text \<open>\<^verbatim>\<open>saveState\<close>: the snapshot holds the eight state variables, that is, the state.\<close>

definition saveState :: "env \<Rightarrow> state \<Rightarrow> unit result" where
  "saveState e st =
     (if write_ok e then (Inr (), st, [WriteSnapshot st]) else (Inl WriteFailed, st, []))"

definition notifyClients :: "string \<Rightarrow> effect list" where
  "notifyClients message = [Notify message]"

definition generateQueueNumber :: "string \<Rightarrow> state \<Rightarrow> string \<times> state" where
  "generateQueueNumber svc st =
     (let v = js_incr (js_get (queueNumbers st) svc)
      in (prefix_of svc @ number_string v,
          st\<lparr>queueNumbers := js_set svc v (queueNumbers st)\<rparr>))"

text \<open>
  \<^verbatim>\<open>addToQueue\<close>. \<^verbatim>\<open>push\<close> exists on arrays only: on any other truthy value whose
  \<^verbatim>\<open>length\<close> is below the limit the call is a \<^verbatim>\<open>TypeError\<close>. A comparison with
  \<^verbatim>\<open>undefined\<close> is false.
\<close>

definition addToQueue :: "env \<Rightarrow> string \<Rightarrow> user \<Rightarrow> state \<Rightarrow> unit result" where
  "addToQueue e svc u st =
     (let q = js_get (queues st) svc in
      if truthy q then
        (if (case js_length q of Some n \<Rightarrow> n < maxQueueLength | None \<Rightarrow> False) then
           (case q of
              Arr us \<Rightarrow> saveState e (st\<lparr>queues := own_set svc (Arr (us @ [u])) (queues st)\<rparr>)
            | _ \<Rightarrow> (Inl TypeError, st, []))
         else (Inr (), st, [ConsoleError (''Queue for '' @ svc @ '' is full.'')]))
      else (Inr (), st, []))"

text \<open>
  \<^verbatim>\<open>callNextNumber\<close>. \<^verbatim>\<open>shift\<close> exists on arrays only; on an empty array it returns
  \<^verbatim>\<open>undefined\<close> and changes nothing. The elements are tickets, which are truthy.
\<close>

definition callNextNumber :: "env \<Rightarrow> string \<Rightarrow> state \<Rightarrow> (user option) result" where
  "callNextNumber e svc st =
     (case js_get (queues st) svc of
        Arr [] \<Rightarrow> (Inr None, st, [])
      | Arr (nextUser # rest) \<Rightarrow>
          (let st1 = st\<lparr>queues := own_set svc (Arr rest) (queues st)\<rparr>;
               st2 = st1\<lparr>currentServing := js_set svc (User nextUser) (currentServing st1)\<rparr>;
               st3 = st2\<lparr>lastServed := js_set svc (User nextUser) (lastServed st2)\<rparr>;
               st4 = st3\<lparr>servedHistory := servedHistory st3 @ [nextUser]\<rparr>;
               st5 = st4\<lparr>totalServed := totalServed st4 + 1\<rparr>;
               st6 = st5\<lparr>totalWaitTime := totalWaitTime st5 + averageServiceTime\<rparr>;
               sent = notifyClients
                        (''Now serving number '' @ number nextUser @ '' at '' @ svc)
           in case saveState e st6 of
                (Inl err, st7, eff) \<Rightarrow> (Inl err, st7, sent @ eff)
              | (Inr _, st7, eff) \<Rightarrow> (Inr (Some nextUser), st7, sent @ eff))
      | _ \<Rightarrow> (Inl TypeError, st, []))"

subsection \<open>The route handlers\<close>

text \<open>GET /queue: one entry per own key of \<^verbatim>\<open>queues\<close>, in the order of \<^verbatim>\<open>for ... in\<close>.\<close>

definition station_entry :: "state \<Rightarrow> user list \<Rightarrow> string \<Rightarrow> station_status" where
  "station_entry st waitingUsers svc =
     \<lparr> current =
         (if truthy (js_get (currentServing st) svc)
          then Some (prop_number (js_get (currentServing st) svc)) else None),
       waiting = map number waitingUsers,
       estimatedWaitTime = length waitingUsers * averageServiceTime \<rparr>"

fun status_rows :: "state \<Rightarrow> string list \<Rightarrow> error + (string \<times> station_status) list" where
  "status_rows st [] = Inr []"
| "status_rows st (svc # rest) =
     (case js_get (queues st) svc of
        Arr waitingUsers \<Rightarrow>
          (case status_rows st rest of
             Inl err \<Rightarrow> Inl err
           | Inr rows \<Rightarrow> Inr ((svc, station_entry st waitingUsers svc) # rows))
      | _ \<Rightarrow> Inl TypeError)"

definition getStatus :: "state \<Rightarrow> reply result" where
  "getStatus st =
     (case status_rows st (map fst (queues st)) of
        Inl err \<Rightarrow> (Inl err, st, [])
      | Inr rows \<Rightarrow> (Inr (StatusReply rows), st, []))"

text \<open>POST /queue.\<close>

definition enqueue :: "env \<Rightarrow> string \<Rightarrow> state \<Rightarrow> reply result" where
  "enqueue e svc st =
     (if \<not> truthy (js_get (queues st) svc) then (Inl UnknownStation, st, [])
      else
        (case generateQueueNumber svc st of
           (n, st1) \<Rightarrow>
             (let u = \<lparr> number = n, service = svc, timestamp = now e \<rparr>
              in case addToQueue e svc u st1 of
                   (Inl err, st2, eff) \<Rightarrow> (Inl err, st2, eff)
                 | (Inr _, st2, eff) \<Rightarrow> (Inr (NumberReply (number u)), st2, eff))))"

text \<open>POST /call.\<close>

definition callNext :: "env \<Rightarrow> string \<Rightarrow> state \<Rightarrow> reply result" where
  "callNext e svc st =
     (case callNextNumber e svc st of
        (Inl err, st1, eff) \<Rightarrow> (Inl err, st1, eff)
      | (Inr (Some currentUser), st1, eff) \<Rightarrow>
          (Inr (CurrentReply (Some (number currentUser))), st1, eff)
      | (Inr None, st1, eff) \<Rightarrow> (Inr (CurrentReply None), st1, eff))"

text \<open>POST /recall.\<close>

definition recall :: "env \<Rightarrow> string \<Rightarrow> state \<Rightarrow> reply result" where
  "recall e svc st =
     (if \<not> truthy (js_get (lastServed st) svc) then (Inl NothingToRecall, st, [])
      else
        (let lastUser = js_get (lastServed st) svc;
             st1 = st\<lparr>currentServing := js_set svc lastUser (currentServing st)\<rparr>;
             sent = notifyClients
                      (''Now serving number '' @ template_string (prop_number lastUser)
                       @ '' at '' @ svc)
         in case saveState e st1 of
              (Inl err, st2, eff) \<Rightarrow> (Inl err, st2, sent @ eff)
            | (Inr _, st2, eff) \<Rightarrow> (Inr (LastNumberReply (prop_number lastUser)), st2, sent @ eff)))"

text \<open>POST /announcement and GET /announcement.\<close>

definition setAnnouncement :: "env \<Rightarrow> string \<Rightarrow> state \<Rightarrow> reply result" where
  "setAnnouncement e announcement st =
     (let st1 = st\<lparr>currentAnnouncement := announcement\<rparr>;
          sent = notifyClients (''New Announcement: '' @ announcement)
      in case saveState e st1 of
           (Inl err, st2, eff) \<Rightarrow> (Inl err, st2, sent @ eff)
         | (Inr _, st2, eff) \<Rightarrow> (Inr AnnouncementSet, st2, sent @ eff))"

definition getAnnouncement :: "state \<Rightarrow> reply result" where
  "getAnnouncement st = (Inr (AnnouncementReply (currentAnnouncement st)), st, [])"

text \<open>
  POST /reset-queue. Nothing in the \<^verbatim>\<open>try\<close> block throws; the callback of
  \<^verbatim>\<open>fs.unlink\<close> runs after the answer and only writes to the console.
\<close>

definition resetAll :: "env \<Rightarrow> state \<Rightarrow> reply result" where
  "resetAll e st =
     (Inr ResetDone,
      st\<lparr> queues := [(''Charging'', Arr []), (''Releasing'', Arr []), (''Extraction'', Arr [])],
          currentServing := [(''Charging'', Null), (''Releasing'', Null), (''Extraction'', Null)],
          queueNumbers := [(''Charging'', Num 0), (''Releasing'', Num 0), (''Extraction'', Num 0)],
          lastServed := [(''Charging'', Null), (''Releasing'', Null), (''Extraction'', Null)],
          servedHistory := [],
          totalServed := 0,
          totalWaitTime := 0,
          currentAnnouncement := [] \<rparr>,
      [UnlinkSnapshot, ConsoleLog ''Queue has been reset.'']
      @ (if unlink_ok e then [] else [ConsoleError ''Failed to remove saved queue file:'']))"

text \<open>
  GET /export: the rows \<^verbatim>\<open>{ service, number }\<close> handed to the CSV parser, with the
  key of the loop as \<^verbatim>\<open>service\<close>. \<^verbatim>\<open>forEach\<close> exists on arrays only.
\<close>

fun export_rows :: "jsobject \<Rightarrow> error + (string \<times> string) list" where
  "export_rows [] = Inr []"
| "export_rows ((svc, v) # rest) =
     (case v of
        Arr us \<Rightarrow>
          (case export_rows rest of
             Inl err \<Rightarrow> Inl err
           | Inr rows \<Rightarrow> Inr (map (\<lambda>u. (svc, number u)) us @ rows))
      | _ \<Rightarrow> Inl TypeError)"

definition exportWaitingTickets :: "state \<Rightarrow> reply result" where
  "exportWaitingTickets st =
     (case export_rows (queues st) of
        Inl err \<Rightarrow> (Inl err, st, [])
      | Inr csvData \<Rightarrow>
          if length csvData = 0 then (Inl NoDataToExport, st, [])
          else (Inr (ExportRows csvData), st, []))"

subsection \<open>Requests and runs\<close>

datatype request =
    GetStatus
  | Enqueue string
  | CallNext string
  | Recall string
  | SetAnnouncement string
  | GetAnnouncement
  | ResetAll
  | ExportWaitingTickets

fun step :: "env \<Rightarrow> request \<Rightarrow> state \<Rightarrow> reply result" where
  "step e GetStatus st = getStatus st"
| "step e (Enqueue svc) st = enqueue e svc st"
| "step e (CallNext svc) st = callNext e svc st"
| "step e (Recall svc) st = recall e svc st"
| "step e (SetAnnouncement a) st = setAnnouncement e a st"
| "step e GetAnnouncement st = getAnnouncement st"
| "step e ResetAll st = resetAll e st"
| "step e ExportWaitingTickets st = exportWaitingTickets st"

text \<open>
  The server handles one request after the other; an exception ends the request, not the
  process, and the state changed so far stays.
\<close>

fun exec :: "(env \<times> request) list \<Rightarrow> state \<Rightarrow> state" where
  "exec [] st = st"
| "exec ((e, r) # rs) st = exec rs (fst (snd (step e r st)))"

fun replies :: "(env \<times> request) list \<Rightarrow> state \<Rightarrow> (error + reply) list" where
  "replies [] st = []"
| "replies ((e, r) # rs) st = fst (step e r st) # replies rs (fst (snd (step e r st)))"

subsection \<open>Reading a run\<close>

text \<open>The waiting list of a station: the array that \<open>queues\<close> holds for it.\<close>

definition waiting_of :: "state \<Rightarrow> string \<Rightarrow> user list" where
  "waiting_of st S = (case js_get (queues st) S of Arr us \<Rightarrow> us | _ \<Rightarrow> [])"

text \<open>The ticket numbers that a run answered to the Enqueue requests for \<open>S\<close>, in order.\<close>

fun number_issued :: "string \<Rightarrow> request \<Rightarrow> error + reply \<Rightarrow> string list" where
  "number_issued S (Enqueue svc) (Inr (NumberReply x)) = (if svc = S then [x] else [])"
| "number_issued S r out = []"

definition issued :: "string \<Rightarrow> (env \<times> request) list \<Rightarrow> state \<Rightarrow> string list" where
  "issued S rs st =
     concat (map (\<lambda>(r, out). number_issued S r out) (zip (map snd rs) (replies rs st)))"

subsection \<open>The invariant of the reachable states\<close>

text \<open>The number of the \<open>k\<close>-th ticket of a station.\<close>

definition ticket_number :: "string \<Rightarrow> nat \<Rightarrow> string" where
  "ticket_number S k = prefix_of S @ show_nat k"

text \<open>
  A slot of \<open>currentServing\<close> or \<open>lastServed\<close> holds \<^verbatim>\<open>null\<close>, or a ticket of
  the station whose sequence value is at most the counter \<open>n\<close> and below the sequence
  values \<open>ks\<close> of all waiting tickets.
\<close>

definition slot_ok :: "string \<Rightarrow> nat \<Rightarrow> nat list \<Rightarrow> jsval \<Rightarrow> bool" where
  "slot_ok S n ks c \<longleftrightarrow>
     c = Null \<or>
     (\<exists>u m. c = User u \<and> number u = ticket_number S m \<and> m \<le> n \<and> (\<forall>k\<in>set ks. m < k))"

text \<open>
  For a station \<open>S\<close>: each of the four objects has an own property \<open>S\<close>; the waiting
  list is an array whose tickets carry increasing sequence values, none above the
  counter; \<open>currentServing\<close> and \<open>lastServed\<close> hold the same value.
\<close>

definition station_inv :: "state \<Rightarrow> string \<Rightarrow> bool" where
  "station_inv st S \<longleftrightarrow>
     (\<exists>q n c ks.
        map_of (queues st) S = Some (Arr q) \<and>
        map_of (queueNumbers st) S = Some (Num n) \<and>
        map_of (currentServing st) S = Some c \<and>
        map_of (lastServed st) S = Some c \<and>
        map number q = map (ticket_number S) ks \<and>
        sorted_wrt (<) ks \<and>
        (\<forall>k\<in>set ks. k \<le> n) \<and>
        slot_ok S n ks c)"

definition consistent :: "state \<Rightarrow> bool" where
  "consistent st \<longleftrightarrow> map fst (queues st) = stations \<and> (\<forall>S\<in>set stations. station_inv st S)"

section \<open>Properties\<close>

subsection \<open>Property lookup and the station names\<close>

lemma map_of_own_set:
  "map_of (own_set k v obj) k' = (if k' = k then Some v else map_of obj k')"
  by (induction obj) auto

lemma js_get_own_set: "js_get (own_set k v obj) k' = (if k' = k then v else js_get obj k')"
  by (simp add: js_get_def map_of_own_set)

lemma map_fst_own_set: "map_of obj k = Some w \<Longrightarrow> map fst (own_set k v obj) = map fst obj"
  by (induction obj) (auto split: if_splits)

lemma stations_iff:
  "S \<in> set stations \<longleftrightarrow> S = ''Charging'' \<or> S = ''Releasing'' \<or> S = ''Extraction''"
  by (auto simp: stations_def)

lemma station_not_inherited: "S \<in> set stations \<Longrightarrow> S \<notin> set object_prototype_names"
  by (auto simp: stations_iff object_prototype_names_def)

lemma station_not_proto: "S \<in> set stations \<Longrightarrow> S \<noteq> ''__proto__''"
  by (auto simp: stations_iff)

subsection \<open>Calling the next ticket of an empty queue\<close>

text \<open>
  Claim C4. When the waiting list of a station \<open>S\<close> is the empty array, CallNext(S)
  answers \<^verbatim>\<open>{ current: null }\<close> and the state after the request is the state before
  it, so that \<open>currentServing\<close>, \<open>lastServed\<close>, \<open>servedHistory\<close>,
  \<open>totalServed\<close> and \<open>totalWaitTime\<close> are as they were; the request has no
  effect on the outside, so the snapshot file is neither written nor removed and nothing is
  broadcast. The three configured stations are the keys under which \<open>queues\<close> holds
  an array.
\<close>

theorem callNext_empty_no_change:
  assumes "js_get (queues st) S = Arr []"
  shows "callNext e S st = (Inr (CurrentReply None), st, [])"
  using assms by (simp add: callNext_def callNextNumber_def)

theorem callNext_empty_no_change_witness:
  "js_get (queues init_state) ''Charging'' = Arr [] \<and>
   callNext \<lparr>now = 0, write_ok = True, unlink_ok = True\<rparr> ''Charging'' init_state
     = (Inr (CurrentReply None), init_state, [])"
  using callNext_empty_no_change
    [of init_state "''Charging''" "\<lparr>now = 0, write_ok = True, unlink_ok = True\<rparr>"]
  by (simp add: js_get_def init_state_def)

subsection \<open>Calling at a name that is not a station\<close>

lemma callNextNumber_not_array:
  assumes "\<forall>us. js_get (queues st) svc \<noteq> Arr us"
  shows "callNextNumber e svc st = (Inl TypeError, st, [])"
  using assms by (cases "js_get (queues st) svc") (simp_all add: callNextNumber_def)

lemma js_get_not_own:
  assumes "k \<notin> fst ` set obj"
  shows "js_get obj k = (if k \<in> set object_prototype_names then Builtin k else Undefined)"
proof -
  from assms have "map_of obj k = None"
    by (simp add: map_of_eq_None_iff)
  then show ?thesis
    by (simp add: js_get_def)
qed

text \<open>
  Whenever \<open>queues\<close> has the three stations as its only own keys, a call at any
  other name ends in a \<^verbatim>\<open>TypeError\<close>: the lookup yields \<^verbatim>\<open>undefined\<close> or an
  inherited built-in, and neither has a \<^verbatim>\<open>shift\<close> method.
\<close>

lemma callNext_not_station:
  assumes "map fst (queues st) = stations" and "s \<notin> set stations"
  shows "callNext e s st = (Inl TypeError, st, [])"
proof -
  from assms have "s \<notin> fst ` set (queues st)"
    by (metis list.set_map)
  then have "\<forall>us. js_get (queues st) s \<noteq> Arr us"
    by (simp add: js_get_not_own)
  then show ?thesis
    by (simp add: callNext_def callNextNumber_not_array)
qed

text \<open>
  Claim C1 says that CallNext at a name that is not a configured station fails with
  \<open>UnknownStation\<close> and never with an unchecked fault. On the fresh state and the
  name \<^verbatim>\<open>Foo\<close> the handler of POST /call ends in a \<^verbatim>\<open>TypeError\<close>, an exception
  that leaves the handler; the handler of POST /queue, which tests
  \<^verbatim>\<open>!queues[service]\<close> first, answers the same name with \<open>UnknownStation\<close>.
\<close>

theorem callNext_unknown_station_faults:
  "callNext e ''Foo'' init_state = (Inl TypeError, init_state, [])
   \<and> is_fault TypeError
   \<and> enqueue e ''Foo'' init_state = (Inl UnknownStation, init_state, [])"
  by (simp add: callNext_def callNextNumber_def enqueue_def js_get_def init_state_def
      object_prototype_names_def)

subsection \<open>Recall\<close>

text \<open>
  The handler rejects the request when the lookup \<^verbatim>\<open>lastServed[s]\<close> is falsy, before
  any assignment, broadcast or write.
\<close>

lemma recall_absent_fails:
  assumes "\<not> truthy (js_get (lastServed st) s)"
  shows "recall e s st = (Inl NothingToRecall, st, [])"
  using assms by (simp add: recall_def)

text \<open>
  So Recall fails with \<open>NothingToRecall\<close> and changes nothing for every name that
  \<^verbatim>\<open>Object.prototype\<close> does not define and for which \<open>lastServed\<close> has no own
  property or holds \<^verbatim>\<open>null\<close>: the stations never served and the names of no station.
\<close>

lemma recall_no_ticket:
  assumes "s \<notin> set object_prototype_names"
    and "map_of (lastServed st) s = None \<or> map_of (lastServed st) s = Some Null"
  shows "recall e s st = (Inl NothingToRecall, st, [])"
proof -
  from assms have "\<not> truthy (js_get (lastServed st) s)"
    by (auto simp: js_get_def)
  then show ?thesis
    by (simp add: recall_def)
qed

text \<open>
  Claim C10 says that Recall(s) fails with \<open>NothingToRecall\<close> and changes nothing for
  every string \<open>s\<close> for which \<open>lastServed\<close> holds no ticket. On the fresh state
  \<open>lastServed\<close> has no property \<^verbatim>\<open>toString\<close>, yet the lookup
  \<^verbatim>\<open>lastServed["toString"]\<close> yields the function inherited from
  \<^verbatim>\<open>Object.prototype\<close>, which is truthy: the guard lets the request through, the
  handler stores the function in \<open>currentServing\<close>, broadcasts a message with the
  number \<^verbatim>\<open>undefined\<close>, writes the snapshot and answers without a number.
\<close>

theorem recall_inherited_name_proceeds:
  "map_of (lastServed init_state) ''toString'' = None
   \<and> recall \<lparr>now = 0, write_ok = True, unlink_ok = True\<rparr> ''toString'' init_state
     = (Inr (LastNumberReply None),
        init_state\<lparr>currentServing :=
          currentServing init_state @ [(''toString'', Builtin ''toString'')]\<rparr>,
        [Notify ''Now serving number undefined at toString'',
         WriteSnapshot (init_state\<lparr>currentServing :=
          currentServing init_state @ [(''toString'', Builtin ''toString'')]\<rparr>)])
   \<and> fst (recall \<lparr>now = 0, write_ok = True, unlink_ok = True\<rparr> ''toString'' init_state)
     \<noteq> Inl NothingToRecall"
  by (simp add: recall_def Let_def js_get_def js_set_def init_state_def
      object_prototype_names_def saveState_def notifyClients_def template_string_def)

lemmas run_defs =
  Let_def enqueue_def callNext_def callNextNumber_def recall_def js_get_def js_set_def
  init_state_def object_prototype_names_def saveState_def notifyClients_def
  template_string_def generateQueueNumber_def addToQueue_def js_incr_def prefix_of_def
  to_upper_def show_nat.simps digit_char_def maxQueueLength_def averageServiceTime_def
  stations_def

text \<open>The state after one ticket was issued and called at Charging.\<close>

lemma served_state:
  "exec [(\<lparr>now = 3, write_ok = True, unlink_ok = True\<rparr>, Enqueue ''Charging''),
         (\<lparr>now = 4, write_ok = True, unlink_ok = True\<rparr>, CallNext ''Charging'')] init_state
   = init_state
      \<lparr>queueNumbers := [(''Charging'', Num 1), (''Releasing'', Num 0), (''Extraction'', Num 0)],
       currentServing :=
         [(''Charging'', User \<lparr>number = ''C1'', service = ''Charging'', timestamp = 3\<rparr>),
          (''Releasing'', Null), (''Extraction'', Null)],
       lastServed :=
         [(''Charging'', User \<lparr>number = ''C1'', service = ''Charging'', timestamp = 3\<rparr>),
          (''Releasing'', Null), (''Extraction'', Null)],
       servedHistory := [\<lparr>number = ''C1'', service = ''Charging'', timestamp = 3\<rparr>],
       totalServed := 1,
       totalWaitTime := 5\<rparr>"
  by (simp add: run_defs)

text \<open>
  Claim C7, as the code has it. For a configured station \<open>S\<close> whose
  \<open>lastServed\<close> slot holds \<^verbatim>\<open>null\<close> or a ticket: Recall(S) fails with
  \<open>NothingToRecall\<close> exactly when the slot holds \<^verbatim>\<open>null\<close>, and then nothing
  changes. When it holds the ticket \<open>u\<close>, the state after the request is the state
  before it with \<open>u\<close> assigned to \<open>currentServing[S]\<close> and nothing else changed:
  \<open>queues\<close> (the waiting list of every station) and \<open>lastServed\<close> are as
  before; the message is broadcast; the answer is the number of \<open>u\<close> when the
  snapshot is written, and the exception of the write when it is not.
\<close>

theorem recall_station:
  assumes "S \<in> set stations"
    and "js_get (lastServed st) S = Null \<or> (\<exists>u. js_get (lastServed st) S = User u)"
  shows "(fst (recall e S st) = Inl NothingToRecall \<longleftrightarrow> js_get (lastServed st) S = Null)
    \<and> (js_get (lastServed st) S = Null \<longrightarrow> recall e S st = (Inl NothingToRecall, st, []))
    \<and> (\<forall>u. js_get (lastServed st) S = User u \<longrightarrow>
          fst (snd (recall e S st)) = st\<lparr>currentServing := own_set S (User u) (currentServing st)\<rparr>
        \<and> queues (fst (snd (recall e S st))) = queues st
        \<and> lastServed (fst (snd (recall e S st))) = lastServed st
        \<and> js_get (currentServing (fst (snd (recall e S st)))) S = User u
        \<and> Notify (''Now serving number '' @ number u @ '' at '' @ S)
            \<in> set (snd (snd (recall e S st)))
        \<and> fst (recall e S st)
            = (if write_ok e then Inr (LastNumberReply (Some (number u))) else Inl WriteFailed))"
proof -
  from assms(1) have np: "S \<noteq> ''__proto__''"
    by (rule station_not_proto)
  from assms(2) show ?thesis
  proof
    assume "js_get (lastServed st) S = Null"
    then show ?thesis
      by (simp add: recall_def)
  next
    assume "\<exists>u. js_get (lastServed st) S = User u"
    then obtain u where u: "js_get (lastServed st) S = User u" ..
    with np show ?thesis
      by (simp add: recall_def Let_def js_set_def saveState_def notifyClients_def
          template_string_def js_get_own_set)
  qed
qed

theorem recall_station_witness:
  "''Charging'' \<in> set stations
   \<and> js_get (lastServed
        (exec [(\<lparr>now = 3, write_ok = True, unlink_ok = True\<rparr>, Enqueue ''Charging''),
               (\<lparr>now = 4, write_ok = True, unlink_ok = True\<rparr>, CallNext ''Charging'')]
           init_state)) ''Charging''
       = User \<lparr>number = ''C1'', service = ''Charging'', timestamp = 3\<rparr>
   \<and> fst (recall \<lparr>now = 5, write_ok = True, unlink_ok = True\<rparr> ''Charging''
        (exec [(\<lparr>now = 3, write_ok = True, unlink_ok = True\<rparr>, Enqueue ''Charging''),
               (\<lparr>now = 4, write_ok = True, unlink_ok = True\<rparr>, CallNext ''Charging'')]
           init_state))
       = Inr (LastNumberReply (Some ''C1''))
   \<and> fst (recall \<lparr>now = 5, write_ok = True, unlink_ok = True\<rparr> ''Charging'' init_state)
       = Inl NothingToRecall"
  using recall_station [of "''Charging''"
      "exec [(\<lparr>now = 3, write_ok = True, unlink_ok = True\<rparr>, Enqueue ''Charging''),
             (\<lparr>now = 4, write_ok = True, unlink_ok = True\<rparr>, CallNext ''Charging'')]
         init_state"
      "\<lparr>now = 5, write_ok = True, unlink_ok = True\<rparr>"]
    recall_station
      [of "''Charging''" init_state "\<lparr>now = 5, write_ok = True, unlink_ok = True\<rparr>"]
  apply (simp only: served_state)
  apply (simp add: js_get_def init_state_def stations_def)
  done

text \<open>
  Claim C7 as stated fails: with the ticket C1 in \<open>lastServed\<close> at Charging, a
  Recall whose snapshot cannot be written ends with the exception of the write and does
  not answer the number.
\<close>

theorem recall_write_failure:
  "''Charging'' \<in> set stations
   \<and> js_get (lastServed
        (exec [(\<lparr>now = 3, write_ok = True, unlink_ok = True\<rparr>, Enqueue ''Charging''),
               (\<lparr>now = 4, write_ok = True, unlink_ok = True\<rparr>, CallNext ''Charging'')]
           init_state)) ''Charging''
       = User \<lparr>number = ''C1'', service = ''Charging'', timestamp = 3\<rparr>
   \<and> fst (recall \<lparr>now = 5, write_ok = False, unlink_ok = True\<rparr> ''Charging''
        (exec [(\<lparr>now = 3, write_ok = True, unlink_ok = True\<rparr>, Enqueue ''Charging''),
               (\<lparr>now = 4, write_ok = True, unlink_ok = True\<rparr>, CallNext ''Charging'')]
           init_state))
       = Inl WriteFailed
   \<and> Inl WriteFailed \<noteq> (Inr (LastNumberReply (Some ''C1'')) :: error + reply)"
  apply (simp only: served_state)
  apply (simp add: recall_def Let_def js_get_def js_set_def init_state_def stations_def
      saveState_def notifyClients_def)
  done

subsection \<open>Reset\<close>

text \<open>
  Claim C8. ResetAll leaves the state at its initial value, whatever it was: every
  waiting list empty, every \<open>currentServing\<close> and \<open>lastServed\<close> slot
  \<^verbatim>\<open>null\<close>, every counter 0, the history empty, both totals 0 and the announcement
  the empty string. It asks for the snapshot file to be removed, writes no snapshot and
  broadcasts nothing. GetStatus on the state it leaves reports
  \<^verbatim>\<open>{ current: null, waiting: [], estimatedWaitTime: 0 }\<close> for each of the three
  stations, and GetAnnouncement the empty string.
\<close>

theorem resetAll_restores:
  "fst (resetAll e st) = Inr ResetDone
   \<and> fst (snd (resetAll e st)) = init_state
   \<and> UnlinkSnapshot \<in> set (snd (snd (resetAll e st)))
   \<and> (\<forall>m. Notify m \<notin> set (snd (snd (resetAll e st))))
   \<and> (\<forall>s. WriteSnapshot s \<notin> set (snd (snd (resetAll e st))))
   \<and> fst (getStatus (fst (snd (resetAll e st))))
       = Inr (StatusReply
           (map (\<lambda>S. (S, \<lparr>current = None, waiting = [], estimatedWaitTime = 0\<rparr>)) stations))
   \<and> fst (getAnnouncement (fst (snd (resetAll e st)))) = Inr (AnnouncementReply [])"
  by (simp add: resetAll_def init_state_def getStatus_def getAnnouncement_def js_get_def
      stations_def station_entry_def)

subsection \<open>Decimal numbers are unique\<close>

lemma digit_char_code: "d < 10 \<Longrightarrow> (of_char (digit_char d) :: nat) = 48 + d"
proof -
  assume "d < 10"
  then have "d = 0 \<or> d = 1 \<or> d = 2 \<or> d = 3 \<or> d = 4 \<or> d = 5 \<or> d = 6 \<or> d = 7 \<or> d = 8 \<or> d = 9"
    by arith
  then show ?thesis
    by (elim disjE) (simp_all add: digit_char_def)
qed

lemma digit_char_inj:
  assumes "a < 10" and "b < 10" and "digit_char a = digit_char b"
  shows "a = b"
proof -
  have "(of_char (digit_char a) :: nat) = of_char (digit_char b)"
    using assms(3) by simp
  with assms(1,2) show ?thesis
    by (simp add: digit_char_code)
qed

lemma show_nat_small: "n < 10 \<Longrightarrow> show_nat n = [digit_char n]"
  by (simp add: show_nat.simps)

lemma show_nat_large:
  "\<not> n < 10 \<Longrightarrow> show_nat n = show_nat (n div 10) @ [digit_char (n mod 10)]"
  by (subst show_nat.simps) simp

lemma show_nat_not_Nil: "show_nat n \<noteq> []"
  by (cases "n < 10") (simp_all add: show_nat_small show_nat_large)

lemma show_nat_inj: "show_nat n = show_nat m \<Longrightarrow> n = m"
proof (induction n arbitrary: m rule: show_nat.induct)
  case (1 n)
  show ?case
  proof (cases "n < 10")
    case small: True
    show ?thesis
    proof (cases "m < 10")
      case True
      with small "1.prems" show ?thesis
        by (simp add: show_nat_small digit_char_inj)
    next
      case False
      with small "1.prems" show ?thesis
        by (simp add: show_nat_small show_nat_large show_nat_not_Nil show_nat_not_Nil [symmetric])
    qed
  next
    case large: False
    show ?thesis
    proof (cases "m < 10")
      case True
      with large "1.prems" show ?thesis
        by (simp add: show_nat_small show_nat_large show_nat_not_Nil show_nat_not_Nil [symmetric])
    next
      case False
      with large "1.prems" have eq: "show_nat (n div 10) = show_nat (m div 10)"
        and d: "digit_char (n mod 10) = digit_char (m mod 10)"
        by (simp_all add: show_nat_large)
      from "1.IH" [OF large eq] have "n div 10 = m div 10" .
      moreover from d have "n mod 10 = m mod 10"
        by (simp add: digit_char_inj)
      ultimately show ?thesis
        by (metis div_mult_mod_eq)
    qed
  qed
qed

subsection \<open>The invariant holds in every reachable state\<close>

lemma js_get_own: "map_of obj k = Some v \<Longrightarrow> js_get obj k = v"
  by (simp add: js_get_def)

lemma map_of_js_set_other: "k' \<noteq> k \<Longrightarrow> map_of (js_set k v obj) k' = map_of obj k'"
  by (simp add: js_set_def map_of_own_set)

lemma map_of_js_set_station:
  "S \<in> set stations \<Longrightarrow> map_of (js_set S v obj) S = Some v"
  by (simp add: js_set_def map_of_own_set station_not_proto)

lemma station_invI:
  assumes "map_of (queues st) S = Some (Arr q)"
    and "map_of (queueNumbers st) S = Some (Num n)"
    and "map_of (currentServing st) S = Some c"
    and "map_of (lastServed st) S = Some c"
    and "map number q = map (ticket_number S) ks"
    and "sorted_wrt (<) ks"
    and "\<forall>k\<in>set ks. k \<le> n"
    and "slot_ok S n ks c"
  shows "station_inv st S"
  unfolding station_inv_def using assms by blast

lemma station_invE:
  assumes "station_inv st S"
  obtains q n c ks where "map_of (queues st) S = Some (Arr q)"
    and "map_of (queueNumbers st) S = Some (Num n)"
    and "map_of (currentServing st) S = Some c"
    and "map_of (lastServed st) S = Some c"
    and "map number q = map (ticket_number S) ks"
    and "sorted_wrt (<) ks"
    and "\<forall>k\<in>set ks. k \<le> n"
    and "slot_ok S n ks c"
  using assms unfolding station_inv_def by blast

lemma station_inv_frame:
  assumes "map_of (queues st') S = map_of (queues st) S"
    and "map_of (queueNumbers st') S = map_of (queueNumbers st) S"
    and "map_of (currentServing st') S = map_of (currentServing st) S"
    and "map_of (lastServed st') S = map_of (lastServed st) S"
  shows "station_inv st' S = station_inv st S"
  by (simp add: station_inv_def assms)

lemma consistent_init: "consistent init_state"
  by (simp add: consistent_def station_inv_def slot_ok_def init_state_def stations_def)

lemma slot_ok_grow:
  assumes "slot_ok S n ks c" and "n \<le> n'" and "\<forall>k\<in>set ks'. k \<in> set ks \<or> n < k"
  shows "slot_ok S n' ks' c"
proof (cases "c = Null")
  case True
  then show ?thesis by (simp add: slot_ok_def)
next
  case False
  with assms(1) obtain u m where c: "c = User u" and num: "number u = ticket_number S m"
    and m: "m \<le> n" and low: "\<forall>k\<in>set ks. m < k"
    unfolding slot_ok_def by blast
  from m assms(2) have "m \<le> n'" by simp
  moreover from m low assms(3) have "\<forall>k\<in>set ks'. m < k" by fastforce
  ultimately show ?thesis
    unfolding slot_ok_def using c num by blast
qed

lemma slot_ok_push: "slot_ok S n ks c \<Longrightarrow> slot_ok S (Suc n) (ks @ [Suc n]) c"
  by (erule slot_ok_grow) auto

lemma slot_ok_counter: "slot_ok S n ks c \<Longrightarrow> slot_ok S (Suc n) ks c"
  by (erule slot_ok_grow) auto

lemma generateQueueNumber_station:
  assumes "S \<in> set stations" and "js_get (queueNumbers st) S = Num n"
  shows "generateQueueNumber S st
         = (ticket_number S (Suc n),
            st\<lparr>queueNumbers := own_set S (Num (Suc n)) (queueNumbers st)\<rparr>)"
  using assms station_not_proto [of S]
  by (simp add: generateQueueNumber_def js_incr_def js_set_def ticket_number_def)

lemma enqueue_configured:
  assumes "S \<in> set stations"
    and "js_get (queues st) S = Arr q"
    and "js_get (queueNumbers st) S = Num n"
    and "ticket = \<lparr>number = ticket_number S (Suc n), service = S, timestamp = now e\<rparr>"
    and "st1 = st\<lparr>queueNumbers := own_set S (Num (Suc n)) (queueNumbers st)\<rparr>"
    and "st2 = st1\<lparr>queues := own_set S (Arr (q @ [ticket])) (queues st)\<rparr>"
  shows "enqueue e S st =
          (if length q < maxQueueLength then
             (if write_ok e then Inr (NumberReply (number ticket)) else Inl WriteFailed,
              st2,
              if write_ok e then [WriteSnapshot st2] else [])
           else
             (Inr (NumberReply (number ticket)), st1,
              [ConsoleError (''Queue for '' @ S @ '' is full.'')]))"
proof -
  have gen: "generateQueueNumber S st = (ticket_number S (Suc n), st1)"
    using assms(1,3,5) by (simp add: generateQueueNumber_station)
  have q1: "js_get (queues st1) S = Arr q"
    using assms(2,5) by simp
  show ?thesis
    using assms(2,4,5,6) gen q1
    by (simp add: enqueue_def addToQueue_def Let_def saveState_def)
qed

lemma enqueue_not_station:
  assumes "map fst (queues st) = stations" and "svc \<notin> set stations"
  shows "fst (snd (enqueue e svc st)) = st
       \<or> (\<exists>v. fst (snd (enqueue e svc st)) = st\<lparr>queueNumbers := js_set svc v (queueNumbers st)\<rparr>)"
proof -
  from assms have "svc \<notin> fst ` set (queues st)"
    by (metis list.set_map)
  then have g: "js_get (queues st) svc
      = (if svc \<in> set object_prototype_names then Builtin svc else Undefined)"
    by (rule js_get_not_own)
  show ?thesis
  proof (cases "svc \<in> set object_prototype_names")
    case False
    with g show ?thesis
      by (simp add: enqueue_def)
  next
    case True
    with g have "js_get (queues st) svc = Builtin svc"
      by simp
    then have "fst (snd (enqueue e svc st))
        = st\<lparr>queueNumbers := js_set svc (js_incr (js_get (queueNumbers st) svc)) (queueNumbers st)\<rparr>"
      by (simp add: enqueue_def generateQueueNumber_def addToQueue_def Let_def
          split: option.split)
    then show ?thesis
      by blast
  qed
qed

lemma consistent_enqueue:
  assumes "consistent st"
  shows "consistent (fst (snd (enqueue e svc st)))"
proof (cases "svc \<in> set stations")
  case station: True
  from assms have keys: "map fst (queues st) = stations"
    and inv: "\<And>S. S \<in> set stations \<Longrightarrow> station_inv st S"
    by (simp_all add: consistent_def)
  from inv [OF station] obtain q n c ks where
    q: "map_of (queues st) svc = Some (Arr q)"
    and n: "map_of (queueNumbers st) svc = Some (Num n)"
    and cs: "map_of (currentServing st) svc = Some c"
    and ls: "map_of (lastServed st) svc = Some c"
    and nums: "map number q = map (ticket_number svc) ks"
    and sorted: "sorted_wrt (<) ks"
    and bound: "\<forall>k\<in>set ks. k \<le> n"
    and slot: "slot_ok svc n ks c"
    by (rule station_invE)
  define ticket where "ticket = \<lparr>number = ticket_number svc (Suc n), service = svc, timestamp = now e\<rparr>"
  define st1 where "st1 = st\<lparr>queueNumbers := own_set svc (Num (Suc n)) (queueNumbers st)\<rparr>"
  define st2 where "st2 = st1\<lparr>queues := own_set svc (Arr (q @ [ticket])) (queues st)\<rparr>"
  have res: "fst (snd (enqueue e svc st)) = (if length q < maxQueueLength then st2 else st1)"
    using enqueue_configured [OF station js_get_own [OF q] js_get_own [OF n] ticket_def st1_def st2_def]
    by simp
  have inv1: "station_inv st1 svc"
  proof (rule station_invI)
    show "map_of (queues st1) svc = Some (Arr q)" using q by (simp add: st1_def)
    show "map_of (queueNumbers st1) svc = Some (Num (Suc n))"
      by (simp add: st1_def map_of_own_set)
    show "map_of (currentServing st1) svc = Some c" using cs by (simp add: st1_def)
    show "map_of (lastServed st1) svc = Some c" using ls by (simp add: st1_def)
    show "map number q = map (ticket_number svc) ks" by (rule nums)
    show "sorted_wrt (<) ks" by (rule sorted)
    show "\<forall>k\<in>set ks. k \<le> Suc n" using bound by auto
    show "slot_ok svc (Suc n) ks c" using slot by (rule slot_ok_counter)
  qed
  have inv2: "station_inv st2 svc"
  proof (rule station_invI)
    show "map_of (queues st2) svc = Some (Arr (q @ [ticket]))"
      by (simp add: st2_def st1_def map_of_own_set)
    show "map_of (queueNumbers st2) svc = Some (Num (Suc n))"
      by (simp add: st2_def st1_def map_of_own_set)
    show "map_of (currentServing st2) svc = Some c" using cs by (simp add: st2_def st1_def)
    show "map_of (lastServed st2) svc = Some c" using ls by (simp add: st2_def st1_def)
    show "map number (q @ [ticket]) = map (ticket_number svc) (ks @ [Suc n])"
      using nums by (simp add: ticket_def)
    show "sorted_wrt (<) (ks @ [Suc n])"
      using sorted bound by (auto simp: sorted_wrt_append)
    show "\<forall>k\<in>set (ks @ [Suc n]). k \<le> Suc n" using bound by auto
    show "slot_ok svc (Suc n) (ks @ [Suc n]) c" using slot by (rule slot_ok_push)
  qed
  have other1: "station_inv st1 S" if "S \<in> set stations" "S \<noteq> svc" for S
  proof -
    have "station_inv st1 S = station_inv st S"
      using that by (intro station_inv_frame) (simp_all add: st1_def map_of_own_set)
    with inv that show ?thesis by simp
  qed
  have other2: "station_inv st2 S" if "S \<in> set stations" "S \<noteq> svc" for S
  proof -
    have "station_inv st2 S = station_inv st S"
      using that by (intro station_inv_frame) (simp_all add: st2_def st1_def map_of_own_set)
    with inv that show ?thesis by simp
  qed
  have keys1: "map fst (queues st1) = stations"
    using keys by (simp add: st1_def)
  have keys2: "map fst (queues st2) = stations"
    using keys q by (simp add: st2_def st1_def map_fst_own_set)
  have "consistent st1"
    unfolding consistent_def using keys1 inv1 other1 by blast
  moreover have "consistent st2"
    unfolding consistent_def using keys2 inv2 other2 by blast
  ultimately show ?thesis
    by (simp add: res)
next
  case False
  from assms have keys: "map fst (queues st) = stations"
    and inv: "\<And>S. S \<in> set stations \<Longrightarrow> station_inv st S"
    by (simp_all add: consistent_def)
  from enqueue_not_station [OF keys False, of e]
  show ?thesis
  proof
    assume "fst (snd (enqueue e svc st)) = st"
    with assms show ?thesis by simp
  next
    assume "\<exists>v. fst (snd (enqueue e svc st)) = st\<lparr>queueNumbers := js_set svc v (queueNumbers st)\<rparr>"
    then obtain v where st': "fst (snd (enqueue e svc st)) = st\<lparr>queueNumbers := js_set svc v (queueNumbers st)\<rparr>" ..
    have "station_inv (st\<lparr>queueNumbers := js_set svc v (queueNumbers st)\<rparr>) S"
      if "S \<in> set stations" for S
    proof -
      from that False have "S \<noteq> svc" by auto
      then have "station_inv (st\<lparr>queueNumbers := js_set svc v (queueNumbers st)\<rparr>) S = station_inv st S"
        by (intro station_inv_frame) (simp_all add: map_of_js_set_other)
      with inv that show ?thesis by simp
    qed
    with keys show ?thesis
      by (simp add: st' consistent_def)
  qed
qed


lemma callNext_configured:
  assumes "S \<in> set stations"
    and "js_get (queues st) S = Arr (u # rest)"
    and "st' = st\<lparr>queues := own_set S (Arr rest) (queues st),
                  currentServing := own_set S (User u) (currentServing st),
                  lastServed := own_set S (User u) (lastServed st),
                  servedHistory := servedHistory st @ [u],
                  totalServed := totalServed st + 1,
                  totalWaitTime := totalWaitTime st + averageServiceTime\<rparr>"
  shows "callNext e S st =
          (if write_ok e then Inr (CurrentReply (Some (number u))) else Inl WriteFailed,
           st',
           Notify (''Now serving number '' @ number u @ '' at '' @ S)
           # (if write_ok e then [WriteSnapshot st'] else []))"
  using assms station_not_proto [of S]
  by (simp add: callNext_def callNextNumber_def Let_def js_set_def saveState_def
      notifyClients_def)

lemma consistent_callNext:
  assumes "consistent st"
  shows "consistent (fst (snd (callNext e svc st)))"
proof (cases "svc \<in> set stations")
  case False
  from assms have "map fst (queues st) = stations"
    by (simp add: consistent_def)
  with False assms show ?thesis
    by (simp add: callNext_not_station)
next
  case station: True
  from assms have keys: "map fst (queues st) = stations"
    and inv: "\<And>S. S \<in> set stations \<Longrightarrow> station_inv st S"
    by (simp_all add: consistent_def)
  from inv [OF station] obtain q n c ks where
    q: "map_of (queues st) svc = Some (Arr q)"
    and n: "map_of (queueNumbers st) svc = Some (Num n)"
    and nums: "map number q = map (ticket_number svc) ks"
    and sorted: "sorted_wrt (<) ks"
    and bound: "\<forall>k\<in>set ks. k \<le> n"
    by (rule station_invE)
  show ?thesis
  proof (cases q)
    case Nil
    with q have "js_get (queues st) svc = Arr []"
      by (simp add: js_get_own)
    with assms show ?thesis
      by (simp add: callNext_def callNextNumber_def)
  next
    case (Cons u rest)
    with nums obtain k ks' where ks: "ks = k # ks'" and u: "number u = ticket_number svc k"
      and rest: "map number rest = map (ticket_number svc) ks'"
      by (cases ks) auto
    define st' where "st' = st\<lparr>queues := own_set svc (Arr rest) (queues st),
                  currentServing := own_set svc (User u) (currentServing st),
                  lastServed := own_set svc (User u) (lastServed st),
                  servedHistory := servedHistory st @ [u],
                  totalServed := totalServed st + 1,
                  totalWaitTime := totalWaitTime st + averageServiceTime\<rparr>"
    from q Cons have "js_get (queues st) svc = Arr (u # rest)"
      by (simp add: js_get_own)
    from callNext_configured [OF station this st'_def]
    have res: "fst (snd (callNext e svc st)) = st'"
      by simp
    have "station_inv st' svc"
    proof (rule station_invI)
      show "map_of (queues st') svc = Some (Arr rest)"
        by (simp add: st'_def map_of_own_set)
      show "map_of (queueNumbers st') svc = Some (Num n)"
        using n by (simp add: st'_def)
      show "map_of (currentServing st') svc = Some (User u)"
        by (simp add: st'_def map_of_own_set)
      show "map_of (lastServed st') svc = Some (User u)"
        by (simp add: st'_def map_of_own_set)
      show "map number rest = map (ticket_number svc) ks'"
        by (rule rest)
      show "sorted_wrt (<) ks'"
        using sorted ks by simp
      show "\<forall>k\<in>set ks'. k \<le> n"
        using bound ks by simp
      show "slot_ok svc n ks' (User u)"
        unfolding slot_ok_def using u sorted bound ks by auto
    qed
    moreover have "station_inv st' S" if "S \<in> set stations" "S \<noteq> svc" for S
    proof -
      have "station_inv st' S = station_inv st S"
        using that by (intro station_inv_frame) (simp_all add: st'_def map_of_own_set)
      with inv that show ?thesis by simp
    qed
    moreover have "map fst (queues st') = stations"
      using keys q by (simp add: st'_def map_fst_own_set)
    ultimately show ?thesis
      unfolding res consistent_def by blast
  qed
qed

lemma recall_state:
  "fst (snd (recall e svc st))
     = (if truthy (js_get (lastServed st) svc)
        then st\<lparr>currentServing := js_set svc (js_get (lastServed st) svc) (currentServing st)\<rparr>
        else st)"
  by (simp add: recall_def Let_def saveState_def)

lemma consistent_recall:
  assumes "consistent st"
  shows "consistent (fst (snd (recall e svc st)))"
proof (cases "truthy (js_get (lastServed st) svc)")
  case False
  with assms show ?thesis
    by (simp add: recall_state)
next
  case True
  from assms have keys: "map fst (queues st) = stations"
    and inv: "\<And>S. S \<in> set stations \<Longrightarrow> station_inv st S"
    by (simp_all add: consistent_def)
  define st' where
    "st' = st\<lparr>currentServing := js_set svc (js_get (lastServed st) svc) (currentServing st)\<rparr>"
  have "station_inv st' S" if S: "S \<in> set stations" for S
  proof -
    have "map_of (currentServing st') S = map_of (currentServing st) S"
    proof (cases "S = svc")
      case False
      then show ?thesis
        by (simp add: st'_def map_of_js_set_other)
    next
      case True
      from inv [OF S] obtain c where "map_of (currentServing st) S = Some c"
        and "map_of (lastServed st) S = Some c"
        by (rule station_invE)
      with True S show ?thesis
        by (simp add: st'_def map_of_js_set_station js_get_own)
    qed
    then have "station_inv st' S = station_inv st S"
      by (intro station_inv_frame) (simp_all add: st'_def)
    with inv S show ?thesis by simp
  qed
  with keys have "consistent st'"
    by (simp add: consistent_def st'_def)
  with True show ?thesis
    by (simp add: recall_state st'_def)
qed

lemma setAnnouncement_state:
  "fst (snd (setAnnouncement e a st)) = st\<lparr>currentAnnouncement := a\<rparr>"
  by (simp add: setAnnouncement_def Let_def saveState_def)

lemma consistent_setAnnouncement:
  "consistent st \<Longrightarrow> consistent (fst (snd (setAnnouncement e a st)))"
  by (simp add: setAnnouncement_state consistent_def station_inv_def)

lemma resetAll_state: "fst (snd (resetAll e st)) = init_state"
  by (simp add: resetAll_def init_state_def)

lemma getStatus_state: "fst (snd (getStatus st)) = st"
  by (simp add: getStatus_def split: sum.split)

lemma getAnnouncement_state: "fst (snd (getAnnouncement st)) = st"
  by (simp add: getAnnouncement_def)

lemma exportWaitingTickets_state: "fst (snd (exportWaitingTickets st)) = st"
  by (simp add: exportWaitingTickets_def split: sum.split)

lemma consistent_step:
  "consistent st \<Longrightarrow> consistent (fst (snd (step e r st)))"
  by (cases r)
    (simp_all add: consistent_enqueue consistent_callNext consistent_recall
      consistent_setAnnouncement resetAll_state consistent_init getStatus_state
      getAnnouncement_state exportWaitingTickets_state)

lemma consistent_exec: "consistent st \<Longrightarrow> consistent (exec rs st)"
  by (induction rs arbitrary: st) (auto simp: consistent_step)

lemma consistent_reachable: "consistent (exec rs init_state)"
  by (simp add: consistent_exec consistent_init)

subsection \<open>Tickets in service\<close>

lemma ticket_number_station: "S \<in> set stations \<Longrightarrow> ticket_number S k = hd S # show_nat k"
  by (auto simp: stations_iff ticket_number_def prefix_of_def to_upper_def)

lemma ticket_number_inj: "ticket_number S k = ticket_number S m \<Longrightarrow> k = m"
  by (simp add: ticket_number_def show_nat_inj)

lemma station_js_get:
  assumes "station_inv st S"
  obtains q n c ks where "js_get (queues st) S = Arr q"
    and "js_get (queueNumbers st) S = Num n"
    and "js_get (currentServing st) S = c"
    and "js_get (lastServed st) S = c"
    and "map number q = map (ticket_number S) ks"
    and "sorted_wrt (<) ks"
    and "\<forall>k\<in>set ks. k \<le> n"
    and "slot_ok S n ks c"
  using assms by (elim station_invE) (simp add: js_get_own)

lemma serving_not_waiting:
  assumes "consistent st" and "S \<in> set stations"
    and "js_get (currentServing st) S = User u"
  shows "u \<notin> set (waiting_of st S)"
proof
  assume waiting: "u \<in> set (waiting_of st S)"
  from assms(1,2) have "station_inv st S"
    by (simp add: consistent_def)
  then obtain q n c ks where q: "js_get (queues st) S = Arr q"
    and c: "js_get (currentServing st) S = c"
    and nums: "map number q = map (ticket_number S) ks"
    and slot: "slot_ok S n ks c"
    by (rule station_js_get)
  from c assms(3) slot obtain m where m: "number u = ticket_number S m"
    and low: "\<forall>k\<in>set ks. m < k"
    by (auto simp: slot_ok_def)
  from waiting q have "number u \<in> set (map number q)"
    by (simp add: waiting_of_def)
  with nums obtain k where "k \<in> set ks" and "number u = ticket_number S k"
    by auto
  with m have "m \<in> set ks"
    by (auto dest: ticket_number_inj)
  with low show False
    by auto
qed

lemma last_is_serving:
  assumes "consistent st" and "S \<in> set stations"
  shows "js_get (lastServed st) S = js_get (currentServing st) S"
proof -
  from assms have "station_inv st S"
    by (simp add: consistent_def)
  then show ?thesis
    by (elim station_js_get) simp
qed

lemma enqueue_currentServing: "currentServing (fst (snd (enqueue e svc st))) = currentServing st"
  by (simp add: enqueue_def generateQueueNumber_def addToQueue_def Let_def saveState_def
      split: jsval.split option.split)

lemma callNext_other:
  assumes "S \<noteq> svc" and "S \<noteq> ''__proto__''"
  shows "js_get (currentServing (fst (snd (callNext e svc st)))) S = js_get (currentServing st) S"
  using assms
  by (simp add: callNext_def callNextNumber_def Let_def saveState_def js_set_def js_get_own_set
      split: jsval.split list.split)

lemma callNext_empty:
  "js_get (queues st) S = Arr [] \<Longrightarrow> callNext e S st = (Inr (CurrentReply None), st, [])"
  by (simp add: callNext_def callNextNumber_def)

lemma exec_append: "exec (rs @ rs') st = exec rs' (exec rs st)"
  by (induction rs arbitrary: st) auto

lemma placed_from_waiting:
  assumes "consistent st" and "S \<in> set stations"
    and "js_get (currentServing (fst (snd (step e r st)))) S = User u"
    and "js_get (currentServing st) S \<noteq> User u"
  shows "waiting_of st S = u # waiting_of (fst (snd (step e r st))) S"
proof (cases r)
  case (Enqueue svc)
  with assms(3,4) show ?thesis
    by (simp add: enqueue_currentServing)
next
  case (CallNext svc)
  show ?thesis
  proof (cases "svc = S")
    case False
    with CallNext assms(2,3,4) show ?thesis
      by (simp add: callNext_other station_not_proto)
  next
    case True
    from assms(1,2) have "station_inv st S"
      by (simp add: consistent_def)
    then obtain q where q: "js_get (queues st) S = Arr q"
      by (rule station_js_get)
    show ?thesis
    proof (cases q)
      case Nil
      with q CallNext True assms(3,4) show ?thesis
        by (simp add: callNext_empty)
    next
      case (Cons v rest)
      with q have "js_get (queues st) S = Arr (v # rest)" by simp
      from callNext_configured [OF assms(2) this refl, of e] CallNext True assms(3) q Cons
      show ?thesis
        by (simp add: waiting_of_def js_get_own_set)
    qed
  qed
next
  case (Recall svc)
  have "js_get (currentServing (fst (snd (recall e svc st)))) S = js_get (currentServing st) S"
  proof (cases "svc = S")
    case True
    with assms(1,2) show ?thesis
      by (simp add: recall_state js_set_def station_not_proto js_get_own_set last_is_serving)
  next
    case False
    with assms(2) show ?thesis
      by (simp add: recall_state js_set_def js_get_own_set)
  qed
  with Recall assms(3,4) show ?thesis
    by simp
next
  case ResetAll
  with assms(2,3) show ?thesis
    by (auto simp: resetAll_state init_state_def js_get_def stations_iff)
qed (use assms(3,4) in \<open>simp_all add: setAnnouncement_state getStatus_state
      getAnnouncement_state exportWaitingTickets_state\<close>)

text \<open>Two tickets issued at Charging, the first of them called.\<close>

lemma two_issued_state:
  "exec [(\<lparr>now = 1, write_ok = True, unlink_ok = True\<rparr>, Enqueue ''Charging''),
         (\<lparr>now = 2, write_ok = True, unlink_ok = True\<rparr>, Enqueue ''Charging'')] init_state
   = init_state
      \<lparr>queues :=
         [(''Charging'',
           Arr [\<lparr>number = ''C1'', service = ''Charging'', timestamp = 1\<rparr>,
                \<lparr>number = ''C2'', service = ''Charging'', timestamp = 2\<rparr>]),
          (''Releasing'', Arr []), (''Extraction'', Arr [])],
       queueNumbers := [(''Charging'', Num 2), (''Releasing'', Num 0), (''Extraction'', Num 0)]\<rparr>"
  by (simp add: run_defs)

lemma one_called_state:
  "exec ([(\<lparr>now = 1, write_ok = True, unlink_ok = True\<rparr>, Enqueue ''Charging''),
          (\<lparr>now = 2, write_ok = True, unlink_ok = True\<rparr>, Enqueue ''Charging'')]
         @ [(\<lparr>now = 3, write_ok = True, unlink_ok = True\<rparr>, CallNext ''Charging'')]) init_state
   = init_state
      \<lparr>queues :=
         [(''Charging'', Arr [\<lparr>number = ''C2'', service = ''Charging'', timestamp = 2\<rparr>]),
          (''Releasing'', Arr []), (''Extraction'', Arr [])],
       queueNumbers := [(''Charging'', Num 2), (''Releasing'', Num 0), (''Extraction'', Num 0)],
       currentServing :=
         [(''Charging'', User \<lparr>number = ''C1'', service = ''Charging'', timestamp = 1\<rparr>),
          (''Releasing'', Null), (''Extraction'', Null)],
       lastServed :=
         [(''Charging'', User \<lparr>number = ''C1'', service = ''Charging'', timestamp = 1\<rparr>),
          (''Releasing'', Null), (''Extraction'', Null)],
       servedHistory := [\<lparr>number = ''C1'', service = ''Charging'', timestamp = 1\<rparr>],
       totalServed := 1,
       totalWaitTime := 5\<rparr>"
  by (simp add: run_defs)

text \<open>
  Claim C5. In every state that a run of requests reaches from the initial state, and
  for every station \<open>S\<close>: the ticket in \<open>currentServing[S]\<close>, if there is one,
  is not in the waiting list of \<open>S\<close>; \<open>lastServed[S]\<close> holds what
  \<open>currentServing[S]\<close> holds, which is the ticket most recently placed there (the
  slot is assigned in \<^verbatim>\<open>callNextNumber\<close> and in the handler of POST /recall, and
  emptied together with \<open>lastServed[S]\<close> by a reset); and whenever one more request
  brings a ticket into \<open>currentServing[S]\<close> that was not there before, that ticket
  was the head of the waiting list and the request removed it from there.
\<close>

theorem serving_invariant:
  assumes "S \<in> set stations"
  shows "(\<forall>u. js_get (currentServing (exec rs init_state)) S = User u \<longrightarrow>
            u \<notin> set (waiting_of (exec rs init_state) S))
       \<and> js_get (lastServed (exec rs init_state)) S
           = js_get (currentServing (exec rs init_state)) S
       \<and> (\<forall>u. js_get (currentServing (exec (rs @ [(e, r)]) init_state)) S = User u
              \<and> js_get (currentServing (exec rs init_state)) S \<noteq> User u \<longrightarrow>
            waiting_of (exec rs init_state) S
              = u # waiting_of (exec (rs @ [(e, r)]) init_state) S)"
proof -
  have c: "consistent (exec rs init_state)"
    by (rule consistent_reachable)
  have step: "exec (rs @ [(e, r)]) init_state = fst (snd (step e r (exec rs init_state)))"
    by (simp add: exec_append)
  show ?thesis
    unfolding step
    using serving_not_waiting [OF c assms] last_is_serving [OF c assms]
      placed_from_waiting [OF c assms, of e r]
    by blast
qed

theorem serving_invariant_witness:
  "''Charging'' \<in> set stations
   \<and> js_get (currentServing
        (exec ([(\<lparr>now = 1, write_ok = True, unlink_ok = True\<rparr>, Enqueue ''Charging''),
                (\<lparr>now = 2, write_ok = True, unlink_ok = True\<rparr>, Enqueue ''Charging'')]
               @ [(\<lparr>now = 3, write_ok = True, unlink_ok = True\<rparr>, CallNext ''Charging'')])
           init_state)) ''Charging''
       = User \<lparr>number = ''C1'', service = ''Charging'', timestamp = 1\<rparr>
   \<and> js_get (lastServed
        (exec ([(\<lparr>now = 1, write_ok = True, unlink_ok = True\<rparr>, Enqueue ''Charging''),
                (\<lparr>now = 2, write_ok = True, unlink_ok = True\<rparr>, Enqueue ''Charging'')]
               @ [(\<lparr>now = 3, write_ok = True, unlink_ok = True\<rparr>, CallNext ''Charging'')])
           init_state)) ''Charging''
       = User \<lparr>number = ''C1'', service = ''Charging'', timestamp = 1\<rparr>
   \<and> waiting_of
        (exec ([(\<lparr>now = 1, write_ok = True, unlink_ok = True\<rparr>, Enqueue ''Charging''),
                (\<lparr>now = 2, write_ok = True, unlink_ok = True\<rparr>, Enqueue ''Charging'')]
               @ [(\<lparr>now = 3, write_ok = True, unlink_ok = True\<rparr>, CallNext ''Charging'')])
           init_state) ''Charging''
       = [\<lparr>number = ''C2'', service = ''Charging'', timestamp = 2\<rparr>]
   \<and> waiting_of
        (exec [(\<lparr>now = 1, write_ok = True, unlink_ok = True\<rparr>, Enqueue ''Charging''),
               (\<lparr>now = 2, write_ok = True, unlink_ok = True\<rparr>, Enqueue ''Charging'')]
           init_state) ''Charging''
       = [\<lparr>number = ''C1'', service = ''Charging'', timestamp = 1\<rparr>,
          \<lparr>number = ''C2'', service = ''Charging'', timestamp = 2\<rparr>]"
  using serving_invariant [of "''Charging''"
      "[(\<lparr>now = 1, write_ok = True, unlink_ok = True\<rparr>, Enqueue ''Charging''),
        (\<lparr>now = 2, write_ok = True, unlink_ok = True\<rparr>, Enqueue ''Charging'')]
       @ [(\<lparr>now = 3, write_ok = True, unlink_ok = True\<rparr>, CallNext ''Charging'')]"
      "\<lparr>now = 4, write_ok = True, unlink_ok = True\<rparr>" "Recall ''Charging''"]
    serving_invariant [of "''Charging''"
      "[(\<lparr>now = 1, write_ok = True, unlink_ok = True\<rparr>, Enqueue ''Charging''),
        (\<lparr>now = 2, write_ok = True, unlink_ok = True\<rparr>, Enqueue ''Charging'')]"
      "\<lparr>now = 3, write_ok = True, unlink_ok = True\<rparr>" "CallNext ''Charging''"]
  apply (simp only: one_called_state two_issued_state)
  apply (simp add: js_get_def init_state_def stations_def waiting_of_def)
  done


subsection \<open>Ticket numbers\<close>

lemma issued_Cons:
  "issued S ((e, r) # rs) st
     = number_issued S r (fst (step e r st)) @ issued S rs (fst (snd (step e r st)))"
  by (simp add: issued_def)

lemma issued_Nil: "issued S [] st = []"
  by (simp add: issued_def)

lemma number_issued_other: "svc \<noteq> S \<Longrightarrow> number_issued S (Enqueue svc) out = []"
proof (cases out)
  case (Inl err)
  then show ?thesis by simp
next
  case (Inr rep)
  assume "svc \<noteq> S"
  with Inr show ?thesis by (cases rep) simp_all
qed

lemma callNext_queueNumbers: "queueNumbers (fst (snd (callNext e svc st))) = queueNumbers st"
  by (simp add: callNext_def callNextNumber_def Let_def saveState_def
      split: jsval.split list.split)

text \<open>One request that is not a reset: the counter of a station does not fall, and a number
  answered for the station is the one of the new counter value.\<close>

lemma step_counter:
  assumes "consistent st" and "S \<in> set stations" and "r \<noteq> ResetAll"
    and "js_get (queueNumbers st) S = Num n"
  shows "\<exists>n1. js_get (queueNumbers (fst (snd (step e r st)))) S = Num n1 \<and> n \<le> n1
           \<and> (number_issued S r (fst (step e r st)) = []
              \<or> number_issued S r (fst (step e r st)) = [ticket_number S n1] \<and> n < n1)"
proof (cases r)
  case (Enqueue svc)
  from assms(1) have keys: "map fst (queues st) = stations"
    and inv: "\<And>T. T \<in> set stations \<Longrightarrow> station_inv st T"
    by (simp_all add: consistent_def)
  show ?thesis
  proof (cases "svc \<in> set stations")
    case False
    with assms(2) have ne: "S \<noteq> svc" by auto
    from enqueue_not_station [OF keys False, of e]
    have "js_get (queueNumbers (fst (snd (enqueue e svc st)))) S = js_get (queueNumbers st) S"
      using ne by (auto simp: js_set_def js_get_own_set)
    with Enqueue ne assms(4) show ?thesis
      by (simp add: number_issued_other)
  next
    case True
    from inv [OF True] obtain q m where q: "js_get (queues st) svc = Arr q"
      and m: "js_get (queueNumbers st) svc = Num m"
      by (rule station_js_get)
    note res = enqueue_configured [OF True q m refl refl refl, of e]
    show ?thesis
    proof (cases "svc = S")
      case same: True
      with m assms(4) have "m = n" by simp
      with res same Enqueue show ?thesis
        by (auto simp: js_get_own_set)
    next
      case False
      with res Enqueue assms(4) show ?thesis
        by (auto simp: js_get_own_set)
    qed
  qed
next
  case ResetAll
  with assms(3) show ?thesis by simp
qed (use assms(4) in \<open>simp_all add: callNext_queueNumbers recall_state setAnnouncement_state
      getStatus_state getAnnouncement_state exportWaitingTickets_state\<close>)

lemma run_counter:
  assumes "consistent st" and "S \<in> set stations" and "ResetAll \<notin> snd ` set rs"
    and "js_get (queueNumbers st) S = Num n"
  shows "\<exists>n' ks. js_get (queueNumbers (exec rs st)) S = Num n' \<and> n \<le> n'
           \<and> issued S rs st = map (ticket_number S) ks
           \<and> sorted_wrt (<) ks \<and> (\<forall>k\<in>set ks. n < k \<and> k \<le> n')"
  using assms
proof (induction rs arbitrary: st n)
  case Nil
  then show ?case
    by (simp add: issued_Nil)
next
  case (Cons x rs)
  obtain e r where x: "x = (e, r)"
    by (cases x)
  define st1 where "st1 = fst (snd (step e r st))"
  from Cons.prems(3) x have r: "r \<noteq> ResetAll" and rs: "ResetAll \<notin> snd ` set rs"
    by auto
  from step_counter [OF Cons.prems(1,2) r Cons.prems(4), of e]
  obtain n1 where n1: "js_get (queueNumbers st1) S = Num n1" and le: "n \<le> n1"
    and out: "number_issued S r (fst (step e r st)) = []
              \<or> number_issued S r (fst (step e r st)) = [ticket_number S n1] \<and> n < n1"
    unfolding st1_def by blast
  have "consistent st1"
    unfolding st1_def using Cons.prems(1) by (rule consistent_step)
  from Cons.IH [OF this Cons.prems(2) rs n1]
  obtain n' ks where n': "js_get (queueNumbers (exec rs st1)) S = Num n'" and le': "n1 \<le> n'"
    and iss: "issued S rs st1 = map (ticket_number S) ks"
    and sorted: "sorted_wrt (<) ks" and bound: "\<forall>k\<in>set ks. n1 < k \<and> k \<le> n'"
    by blast
  from out show ?case
  proof
    assume "number_issued S r (fst (step e r st)) = []"
    with n' le le' iss sorted bound have
      "js_get (queueNumbers (exec (x # rs) st)) S = Num n' \<and> n \<le> n'
        \<and> issued S (x # rs) st = map (ticket_number S) ks
        \<and> sorted_wrt (<) ks \<and> (\<forall>k\<in>set ks. n < k \<and> k \<le> n')"
      by (auto simp: x issued_Cons st1_def)
    then show ?thesis by blast
  next
    assume "number_issued S r (fst (step e r st)) = [ticket_number S n1] \<and> n < n1"
    with n' le le' iss sorted bound have
      "js_get (queueNumbers (exec (x # rs) st)) S = Num n' \<and> n \<le> n'
        \<and> issued S (x # rs) st = map (ticket_number S) (n1 # ks)
        \<and> sorted_wrt (<) (n1 # ks) \<and> (\<forall>k\<in>set (n1 # ks). n < k \<and> k \<le> n')"
      by (auto simp: x issued_Cons st1_def)
    then show ?thesis by blast
  qed
qed

text \<open>
  Claim C6. For a station \<open>S\<close> and a state \<open>st\<close> reached by any run from the
  initial state: the counter of \<open>S\<close> is 0 in the initial state; in \<open>st\<close> it is a
  number \<open>n\<close>, and \<^verbatim>\<open>generateQueueNumber\<close> yields the first letter of \<open>S\<close>
  followed by the decimal digits of \<open>n + 1\<close> and stores \<open>n + 1\<close>. Over a run
  \<open>rs\<close> from \<open>st\<close> that holds no reset, the counter does not fall, and the
  numbers answered for \<open>S\<close> are that letter followed by sequence values that strictly
  increase, all above \<open>n\<close> and none above the final counter; no number is answered
  twice.
\<close>

theorem ticket_numbers_increase:
  assumes "S \<in> set stations" and "ResetAll \<notin> snd ` set rs" and "st = exec pre init_state"
  shows "js_get (queueNumbers init_state) S = Num 0
       \<and> (\<exists>n n' ks.
            js_get (queueNumbers st) S = Num n
          \<and> generateQueueNumber S st
              = (hd S # show_nat (Suc n),
                 st\<lparr>queueNumbers := own_set S (Num (Suc n)) (queueNumbers st)\<rparr>)
          \<and> js_get (queueNumbers (exec rs st)) S = Num n' \<and> n \<le> n'
          \<and> issued S rs st = map (\<lambda>k. hd S # show_nat k) ks
          \<and> sorted_wrt (<) ks \<and> (\<forall>k\<in>set ks. n < k \<and> k \<le> n')
          \<and> distinct (issued S rs st))"
proof -
  have c: "consistent st"
    unfolding assms(3) by (rule consistent_reachable)
  with assms(1) have "station_inv st S"
    by (simp add: consistent_def)
  then obtain n where n: "js_get (queueNumbers st) S = Num n"
    by (rule station_js_get)
  from run_counter [OF c assms(1,2) n]
  obtain n' ks where n': "js_get (queueNumbers (exec rs st)) S = Num n'" and le: "n \<le> n'"
    and iss: "issued S rs st = map (ticket_number S) ks"
    and sorted: "sorted_wrt (<) ks" and bound: "\<forall>k\<in>set ks. n < k \<and> k \<le> n'"
    by blast
  have tn: "ticket_number S = (\<lambda>k. hd S # show_nat k)"
    using assms(1) by (auto simp: ticket_number_station)
  have "distinct ks"
    using sorted by (simp add: strict_sorted_iff)
  moreover have "inj_on (ticket_number S) (set ks)"
    by (auto intro: inj_onI dest: ticket_number_inj)
  ultimately have dist: "distinct (issued S rs st)"
    by (simp add: iss distinct_map)
  have gen: "generateQueueNumber S st
      = (hd S # show_nat (Suc n), st\<lparr>queueNumbers := own_set S (Num (Suc n)) (queueNumbers st)\<rparr>)"
    using generateQueueNumber_station [OF assms(1) n] by (simp add: tn)
  have init: "js_get (queueNumbers init_state) S = Num 0"
    using assms(1) by (auto simp: stations_iff init_state_def js_get_def)
  from init n gen n' le iss sorted bound dist show ?thesis
    unfolding tn by blast
qed

theorem ticket_numbers_increase_witness:
  "''Charging'' \<in> set stations
   \<and> ResetAll \<notin> snd ` set
        [(\<lparr>now = 1, write_ok = True, unlink_ok = True\<rparr>, Enqueue ''Charging''),
         (\<lparr>now = 2, write_ok = True, unlink_ok = True\<rparr>, Enqueue ''Releasing''),
         (\<lparr>now = 3, write_ok = True, unlink_ok = True\<rparr>, Enqueue ''Charging'')]
   \<and> issued ''Charging''
        [(\<lparr>now = 1, write_ok = True, unlink_ok = True\<rparr>, Enqueue ''Charging''),
         (\<lparr>now = 2, write_ok = True, unlink_ok = True\<rparr>, Enqueue ''Releasing''),
         (\<lparr>now = 3, write_ok = True, unlink_ok = True\<rparr>, Enqueue ''Charging'')] init_state
       = [''C1'', ''C2'']
   \<and> js_get (queueNumbers (exec
        [(\<lparr>now = 1, write_ok = True, unlink_ok = True\<rparr>, Enqueue ''Charging''),
         (\<lparr>now = 2, write_ok = True, unlink_ok = True\<rparr>, Enqueue ''Releasing''),
         (\<lparr>now = 3, write_ok = True, unlink_ok = True\<rparr>, Enqueue ''Charging'')] init_state))
        ''Charging'' = Num 2"
  using ticket_numbers_increase [of "''Charging''"
        "[(\<lparr>now = 1, write_ok = True, unlink_ok = True\<rparr>, Enqueue ''Charging''),
         (\<lparr>now = 2, write_ok = True, unlink_ok = True\<rparr>, Enqueue ''Releasing''),
         (\<lparr>now = 3, write_ok = True, unlink_ok = True\<rparr>, Enqueue ''Charging'')]"
        init_state "[]"]
  by (simp add: run_defs issued_def)


subsection \<open>Export\<close>

lemma export_rows_consistent:
  assumes "consistent st"
  shows "export_rows (queues st)
         = Inr (concat (map (\<lambda>S. map (\<lambda>u. (S, number u)) (waiting_of st S)) stations))"
proof -
  from assms have keys: "map fst (queues st) = stations"
    and inv: "\<And>S. S \<in> set stations \<Longrightarrow> station_inv st S"
    by (simp_all add: consistent_def)
  from keys obtain a b c where shape:
    "queues st = [(''Charging'', a), (''Releasing'', b), (''Extraction'', c)]"
    by (auto simp: stations_def map_eq_Cons_conv)
  from inv [of "''Charging''"] obtain qa where "a = Arr qa"
    by (auto simp: stations_def shape elim!: station_invE)
  moreover from inv [of "''Releasing''"] obtain qb where "b = Arr qb"
    by (auto simp: stations_def shape elim!: station_invE)
  moreover from inv [of "''Extraction''"] obtain qc where "c = Arr qc"
    by (auto simp: stations_def shape elim!: station_invE)
  ultimately show ?thesis
    by (simp add: shape stations_def waiting_of_def js_get_def)
qed

text \<open>
  Claim C9. In every state reached from the initial state, ExportWaitingTickets fails
  with \<open>NoDataToExport\<close> exactly when the waiting list of every station is empty;
  otherwise its rows are, station by station in the order of \<open>queues\<close>, one pair
  of the station and the ticket number per waiting ticket, taken from the waiting lists
  alone. The request leaves the state as it is and has no effect. On the fresh state
  after one Enqueue at Releasing the rows are the single pair of Releasing and R1.
\<close>

theorem export_waiting:
  "(fst (exportWaitingTickets (exec rs init_state)) = Inl NoDataToExport
      \<longleftrightarrow> (\<forall>S\<in>set stations. waiting_of (exec rs init_state) S = []))
   \<and> (fst (exportWaitingTickets (exec rs init_state)) \<noteq> Inl NoDataToExport \<longrightarrow>
        fst (exportWaitingTickets (exec rs init_state))
          = Inr (ExportRows
              (concat (map (\<lambda>S. map (\<lambda>u. (S, number u)) (waiting_of (exec rs init_state) S))
                 stations))))
   \<and> snd (exportWaitingTickets (exec rs init_state)) = (exec rs init_state, [])
   \<and> fst (exportWaitingTickets (exec [(e, Enqueue ''Releasing'')] init_state))
       = Inr (ExportRows [(''Releasing'', ''R1'')])"
proof -
  have rows: "export_rows (queues (exec rs init_state))
      = Inr (concat (map (\<lambda>S. map (\<lambda>u. (S, number u)) (waiting_of (exec rs init_state) S))
               stations))"
    by (rule export_rows_consistent) (rule consistent_reachable)
  have one: "fst (exportWaitingTickets (exec [(e, Enqueue ''Releasing'')] init_state))
       = Inr (ExportRows [(''Releasing'', ''R1'')])"
    by (simp add: run_defs exportWaitingTickets_def)
  show ?thesis
    using one by (auto simp: exportWaitingTickets_def rows)
qed

theorem export_waiting_witness:
  "fst (exportWaitingTickets init_state) = Inl NoDataToExport
   \<and> waiting_of init_state ''Charging'' = []
   \<and> fst (exportWaitingTickets
        (exec [(\<lparr>now = 1, write_ok = True, unlink_ok = True\<rparr>, Enqueue ''Releasing''),
               (\<lparr>now = 2, write_ok = True, unlink_ok = True\<rparr>, Enqueue ''Charging''),
               (\<lparr>now = 3, write_ok = True, unlink_ok = True\<rparr>, Enqueue ''Charging''),
               (\<lparr>now = 4, write_ok = True, unlink_ok = True\<rparr>, CallNext ''Charging'')]
           init_state))
       = Inr (ExportRows [(''Charging'', ''C2''), (''Releasing'', ''R1'')])"
  using export_waiting [of "[]" "\<lparr>now = 1, write_ok = True, unlink_ok = True\<rparr>"]
    export_waiting
      [of "[(\<lparr>now = 1, write_ok = True, unlink_ok = True\<rparr>, Enqueue ''Releasing''),
            (\<lparr>now = 2, write_ok = True, unlink_ok = True\<rparr>, Enqueue ''Charging''),
            (\<lparr>now = 3, write_ok = True, unlink_ok = True\<rparr>, Enqueue ''Charging''),
            (\<lparr>now = 4, write_ok = True, unlink_ok = True\<rparr>, CallNext ''Charging'')]"
          "\<lparr>now = 1, write_ok = True, unlink_ok = True\<rparr>"]
  by (simp add: run_defs exportWaitingTickets_def waiting_of_def)


subsection \<open>Enqueue at a station\<close>

text \<open>One hundred tickets issued at Charging and none called.\<close>

lemma full_reached:
  "exec (replicate 100 (\<lparr>now = 3, write_ok = True, unlink_ok = True\<rparr>, Enqueue ''Charging''))
     init_state
   = init_state
      \<lparr>queues :=
         [(''Charging'',
           Arr (map (\<lambda>k. \<lparr>number = CHR ''C'' # show_nat k, service = ''Charging'', timestamp = 3\<rparr>)
                  [1..<101])),
          (''Releasing'', Arr []), (''Extraction'', Arr [])],
       queueNumbers := [(''Charging'', Num 100), (''Releasing'', Num 0), (''Extraction'', Num 0)]\<rparr>"
  by code_simp

text \<open>
  Claim C3. For a station \<open>S\<close> with waiting list \<open>q\<close> and counter \<open>n\<close>,
  Enqueue(S) makes the ticket with the number of \<open>n + 1\<close>. When \<open>q\<close> has reached
  \<open>maxQueueLength\<close>, the counter is \<open>n + 1\<close> afterwards, \<open>queues\<close> is
  unchanged, the only effect is a line on the server's console, and the answer is the
  number of the ticket, not an error. When \<open>q\<close> is shorter, the ticket is appended at
  the end of \<open>q\<close>, and once the snapshot is written the effect is the snapshot of the
  whole new state and the answer is the number.
\<close>

theorem enqueue_station:
  assumes "S \<in> set stations"
    and "js_get (queues st) S = Arr q"
    and "js_get (queueNumbers st) S = Num n"
    and "ticket = \<lparr>number = hd S # show_nat (Suc n), service = S, timestamp = now e\<rparr>"
    and "st1 = st\<lparr>queueNumbers := own_set S (Num (Suc n)) (queueNumbers st)\<rparr>"
    and "st2 = st1\<lparr>queues := own_set S (Arr (q @ [ticket])) (queues st)\<rparr>"
  shows "(maxQueueLength \<le> length q \<longrightarrow>
            enqueue e S st
              = (Inr (NumberReply (number ticket)), st1,
                 [ConsoleError (''Queue for '' @ S @ '' is full.'')])
          \<and> queues st1 = queues st
          \<and> js_get (queueNumbers st1) S = Num (Suc n))
       \<and> (length q < maxQueueLength \<longrightarrow>
            fst (snd (enqueue e S st)) = st2
          \<and> waiting_of st2 S = q @ [ticket]
          \<and> (write_ok e \<longrightarrow>
               enqueue e S st = (Inr (NumberReply (number ticket)), st2, [WriteSnapshot st2])))"
proof -
  have t: "ticket = \<lparr>number = ticket_number S (Suc n), service = S, timestamp = now e\<rparr>"
    using assms(1,4) by (simp add: ticket_number_station)
  from enqueue_configured [OF assms(1,2,3) t assms(5,6)] assms(5,6)
  show ?thesis
    by (simp add: js_get_own_set waiting_of_def)
qed

theorem enqueue_station_witness:
  "''Charging'' \<in> set stations
   \<and> length (waiting_of
        (exec (replicate 100 (\<lparr>now = 3, write_ok = True, unlink_ok = True\<rparr>, Enqueue ''Charging''))
           init_state) ''Charging'') = maxQueueLength
   \<and> fst (enqueue \<lparr>now = 4, write_ok = True, unlink_ok = True\<rparr> ''Charging''
        (exec (replicate 100 (\<lparr>now = 3, write_ok = True, unlink_ok = True\<rparr>, Enqueue ''Charging''))
           init_state)) = Inr (NumberReply ''C101'')
   \<and> waiting_of (fst (snd (enqueue \<lparr>now = 4, write_ok = True, unlink_ok = True\<rparr> ''Charging''
        (exec (replicate 100 (\<lparr>now = 3, write_ok = True, unlink_ok = True\<rparr>, Enqueue ''Charging''))
           init_state)))) ''Charging''
     = waiting_of
        (exec (replicate 100 (\<lparr>now = 3, write_ok = True, unlink_ok = True\<rparr>, Enqueue ''Charging''))
           init_state) ''Charging''
   \<and> fst (enqueue \<lparr>now = 4, write_ok = True, unlink_ok = True\<rparr> ''Releasing'' init_state)
       = Inr (NumberReply ''R1'')
   \<and> waiting_of (fst (snd (enqueue \<lparr>now = 4, write_ok = True, unlink_ok = True\<rparr> ''Releasing''
        init_state))) ''Releasing''
       = [\<lparr>number = ''R1'', service = ''Releasing'', timestamp = 4\<rparr>]"
proof -
  let ?e = "\<lparr>now = 4, write_ok = True, unlink_ok = True\<rparr>"
  let ?full = "exec (replicate 100
      (\<lparr>now = 3, write_ok = True, unlink_ok = True\<rparr>, Enqueue ''Charging'')) init_state"
  let ?q = "map (\<lambda>k. \<lparr>number = CHR ''C'' # show_nat k, service = ''Charging'', timestamp = 3\<rparr>)
      [1..<101]"
  have station: "''Charging'' \<in> set stations" and station': "''Releasing'' \<in> set stations"
    by (simp_all add: stations_def)
  have q: "js_get (queues ?full) ''Charging'' = Arr ?q"
    by (simp only: full_reached) (simp add: js_get_def init_state_def)
  have n: "js_get (queueNumbers ?full) ''Charging'' = Num 100"
    by (simp only: full_reached) (simp add: js_get_def init_state_def)
  have len: "length ?q = maxQueueLength"
    by (simp add: maxQueueLength_def)
  have q0: "js_get (queues init_state) ''Releasing'' = Arr []"
    and n0: "js_get (queueNumbers init_state) ''Releasing'' = Num 0"
    by (simp_all add: js_get_def init_state_def)
  have c101: "hd ''Charging'' # show_nat (Suc 100) = ''C101''"
    and r1: "hd ''Releasing'' # show_nat (Suc 0) = ''R1''"
    by (simp_all add: show_nat.simps digit_char_def)
  from enqueue_station [OF station q n refl refl refl, of ?e]
    enqueue_station [OF station' q0 n0 refl refl refl, of ?e]
  show ?thesis
    using station len q c101 r1
    by (simp add: waiting_of_def maxQueueLength_def)
qed


subsection \<open>A snapshot that cannot be written\<close>

lemma write_failure_state:
  "fst (snd (step e r st)) = fst (snd (step (e\<lparr>write_ok := True\<rparr>) r st))"
proof (cases r)
  case (Enqueue svc)
  then show ?thesis
    by (simp add: enqueue_def generateQueueNumber_def addToQueue_def Let_def saveState_def
        split: jsval.split option.split)
next
  case (CallNext svc)
  then show ?thesis
    by (simp add: callNext_def callNextNumber_def Let_def saveState_def notifyClients_def
        split: jsval.split list.split)
next
  case (Recall svc)
  then show ?thesis
    by (simp add: recall_def Let_def saveState_def notifyClients_def)
next
  case (SetAnnouncement a)
  then show ?thesis
    by (simp add: setAnnouncement_def Let_def saveState_def notifyClients_def)
next
  case GetStatus
  then show ?thesis
    by (simp add: getStatus_def split: sum.split)
next
  case GetAnnouncement
  then show ?thesis
    by (simp add: getAnnouncement_def)
next
  case ResetAll
  then show ?thesis
    by (simp add: resetAll_def)
next
  case ExportWaitingTickets
  then show ?thesis
    by (simp add: exportWaitingTickets_def split: sum.split)
qed

lemma enqueue_write_failure:
  assumes "\<not> write_ok e" and "S \<in> set stations" and "js_get (queues st) S = Arr q"
    and "js_get (queueNumbers st) S = Num n" and "length q < maxQueueLength"
  shows "fst (enqueue e S st) = Inl WriteFailed
       \<and> waiting_of (fst (snd (enqueue e S st))) S
           = q @ [\<lparr>number = hd S # show_nat (Suc n), service = S, timestamp = now e\<rparr>]
       \<and> js_get (queueNumbers (fst (snd (enqueue e S st)))) S = Num (Suc n)"
  using enqueue_configured [OF assms(2,3,4) refl refl refl, of e] assms(1,2,5)
  by (simp add: waiting_of_def js_get_own_set ticket_number_station)

lemma callNext_write_failure:
  assumes "\<not> write_ok e" and "S \<in> set stations" and "js_get (queues st) S = Arr (u # rest)"
  shows "fst (callNext e S st) = Inl WriteFailed
       \<and> waiting_of (fst (snd (callNext e S st))) S = rest
       \<and> js_get (currentServing (fst (snd (callNext e S st)))) S = User u
       \<and> js_get (lastServed (fst (snd (callNext e S st)))) S = User u
       \<and> servedHistory (fst (snd (callNext e S st))) = servedHistory st @ [u]
       \<and> totalServed (fst (snd (callNext e S st))) = totalServed st + 1
       \<and> Notify (''Now serving number '' @ number u @ '' at '' @ S)
            \<in> set (snd (snd (callNext e S st)))"
  using callNext_configured [OF assms(2,3) refl, of e] assms(1)
  by (simp add: waiting_of_def js_get_own_set)

lemma recall_write_failure_aux:
  assumes "\<not> write_ok e" and "S \<in> set stations" and "js_get (lastServed st) S = User u"
  shows "fst (recall e S st) = Inl WriteFailed
       \<and> js_get (currentServing (fst (snd (recall e S st)))) S = User u
       \<and> Notify (''Now serving number '' @ number u @ '' at '' @ S)
            \<in> set (snd (snd (recall e S st)))"
  using assms station_not_proto [of S]
  by (simp add: recall_def Let_def js_set_def saveState_def notifyClients_def
      template_string_def js_get_own_set)

lemma setAnnouncement_write_failure:
  assumes "\<not> write_ok e"
  shows "fst (setAnnouncement e a st) = Inl WriteFailed
       \<and> fst (snd (setAnnouncement e a st)) = st\<lparr>currentAnnouncement := a\<rparr>
       \<and> Notify (''New Announcement: '' @ a) \<in> set (snd (snd (setAnnouncement e a st)))"
  using assms by (simp add: setAnnouncement_def Let_def saveState_def notifyClients_def)

text \<open>
  Claim C2, as the code has it. No call of \<^verbatim>\<open>saveState\<close> is guarded, so when the
  snapshot cannot be written the exception of the write leaves the handler in place of
  the answer. This holds for each operation that changes the state: Enqueue at a station
  with room, CallNext at a station with a waiting ticket, Recall at a station with a
  served ticket, and SetAnnouncement. What the operation changed in memory before the
  write stays (the appended ticket and the counter, the dequeued ticket in both slots and
  in the history, the recalled ticket, the new announcement), and its broadcast has been
  sent. For every request the state afterwards is the state that the request leaves when
  the write succeeds.
\<close>

theorem write_failure_propagates:
  assumes "\<not> write_ok e"
  shows "fst (snd (step e r st)) = fst (snd (step (e\<lparr>write_ok := True\<rparr>) r st))
     \<and> (\<forall>S q n. S \<in> set stations \<and> js_get (queues st) S = Arr q
            \<and> js_get (queueNumbers st) S = Num n \<and> length q < maxQueueLength \<longrightarrow>
          fst (step e (Enqueue S) st) = Inl WriteFailed
        \<and> waiting_of (fst (snd (step e (Enqueue S) st))) S
            = q @ [\<lparr>number = hd S # show_nat (Suc n), service = S, timestamp = now e\<rparr>]
        \<and> js_get (queueNumbers (fst (snd (step e (Enqueue S) st)))) S = Num (Suc n))
     \<and> (\<forall>S u rest. S \<in> set stations \<and> js_get (queues st) S = Arr (u # rest) \<longrightarrow>
          fst (step e (CallNext S) st) = Inl WriteFailed
        \<and> waiting_of (fst (snd (step e (CallNext S) st))) S = rest
        \<and> js_get (currentServing (fst (snd (step e (CallNext S) st)))) S = User u
        \<and> js_get (lastServed (fst (snd (step e (CallNext S) st)))) S = User u
        \<and> servedHistory (fst (snd (step e (CallNext S) st))) = servedHistory st @ [u]
        \<and> totalServed (fst (snd (step e (CallNext S) st))) = totalServed st + 1
        \<and> Notify (''Now serving number '' @ number u @ '' at '' @ S)
             \<in> set (snd (snd (step e (CallNext S) st))))
     \<and> (\<forall>S u. S \<in> set stations \<and> js_get (lastServed st) S = User u \<longrightarrow>
          fst (step e (Recall S) st) = Inl WriteFailed
        \<and> js_get (currentServing (fst (snd (step e (Recall S) st)))) S = User u
        \<and> Notify (''Now serving number '' @ number u @ '' at '' @ S)
             \<in> set (snd (snd (step e (Recall S) st))))
     \<and> (\<forall>a. fst (step e (SetAnnouncement a) st) = Inl WriteFailed
        \<and> fst (snd (step e (SetAnnouncement a) st)) = st\<lparr>currentAnnouncement := a\<rparr>
        \<and> Notify (''New Announcement: '' @ a)
             \<in> set (snd (snd (step e (SetAnnouncement a) st))))"
  using write_failure_state [of e r st]
    enqueue_write_failure [OF assms, of _ st] callNext_write_failure [OF assms, of _ st]
    recall_write_failure_aux [OF assms, of _ st] setAnnouncement_write_failure [OF assms, of _ st]
  by simp

theorem write_failure_propagates_witness:
  "\<not> write_ok \<lparr>now = 4, write_ok = False, unlink_ok = True\<rparr>
   \<and> ''Charging'' \<in> set stations
   \<and> fst (step \<lparr>now = 4, write_ok = False, unlink_ok = True\<rparr> (Enqueue ''Charging'')
        (exec ([(\<lparr>now = 1, write_ok = True, unlink_ok = True\<rparr>, Enqueue ''Charging''),
                (\<lparr>now = 2, write_ok = True, unlink_ok = True\<rparr>, Enqueue ''Charging'')]
               @ [(\<lparr>now = 3, write_ok = True, unlink_ok = True\<rparr>, CallNext ''Charging'')])
           init_state))
       = Inl WriteFailed
   \<and> waiting_of (fst (snd (step \<lparr>now = 4, write_ok = False, unlink_ok = True\<rparr>
        (Enqueue ''Charging'')
        (exec ([(\<lparr>now = 1, write_ok = True, unlink_ok = True\<rparr>, Enqueue ''Charging''),
                (\<lparr>now = 2, write_ok = True, unlink_ok = True\<rparr>, Enqueue ''Charging'')]
               @ [(\<lparr>now = 3, write_ok = True, unlink_ok = True\<rparr>, CallNext ''Charging'')])
           init_state)))) ''Charging''
       = [\<lparr>number = ''C2'', service = ''Charging'', timestamp = 2\<rparr>,
          \<lparr>number = ''C3'', service = ''Charging'', timestamp = 4\<rparr>]
   \<and> fst (step \<lparr>now = 4, write_ok = False, unlink_ok = True\<rparr> (CallNext ''Charging'')
        (exec ([(\<lparr>now = 1, write_ok = True, unlink_ok = True\<rparr>, Enqueue ''Charging''),
                (\<lparr>now = 2, write_ok = True, unlink_ok = True\<rparr>, Enqueue ''Charging'')]
               @ [(\<lparr>now = 3, write_ok = True, unlink_ok = True\<rparr>, CallNext ''Charging'')])
           init_state))
       = Inl WriteFailed
   \<and> js_get (currentServing (fst (snd (step \<lparr>now = 4, write_ok = False, unlink_ok = True\<rparr>
        (CallNext ''Charging'')
        (exec ([(\<lparr>now = 1, write_ok = True, unlink_ok = True\<rparr>, Enqueue ''Charging''),
                (\<lparr>now = 2, write_ok = True, unlink_ok = True\<rparr>, Enqueue ''Charging'')]
               @ [(\<lparr>now = 3, write_ok = True, unlink_ok = True\<rparr>, CallNext ''Charging'')])
           init_state))))) ''Charging''
       = User \<lparr>number = ''C2'', service = ''Charging'', timestamp = 2\<rparr>
   \<and> fst (step \<lparr>now = 4, write_ok = False, unlink_ok = True\<rparr> (Recall ''Charging'')
        (exec ([(\<lparr>now = 1, write_ok = True, unlink_ok = True\<rparr>, Enqueue ''Charging''),
                (\<lparr>now = 2, write_ok = True, unlink_ok = True\<rparr>, Enqueue ''Charging'')]
               @ [(\<lparr>now = 3, write_ok = True, unlink_ok = True\<rparr>, CallNext ''Charging'')])
           init_state))
       = Inl WriteFailed
   \<and> fst (step \<lparr>now = 4, write_ok = False, unlink_ok = True\<rparr> (SetAnnouncement ''closed'')
        (exec ([(\<lparr>now = 1, write_ok = True, unlink_ok = True\<rparr>, Enqueue ''Charging''),
                (\<lparr>now = 2, write_ok = True, unlink_ok = True\<rparr>, Enqueue ''Charging'')]
               @ [(\<lparr>now = 3, write_ok = True, unlink_ok = True\<rparr>, CallNext ''Charging'')])
           init_state))
       = Inl WriteFailed
   \<and> currentAnnouncement (fst (snd (step \<lparr>now = 4, write_ok = False, unlink_ok = True\<rparr>
        (SetAnnouncement ''closed'')
        (exec ([(\<lparr>now = 1, write_ok = True, unlink_ok = True\<rparr>, Enqueue ''Charging''),
                (\<lparr>now = 2, write_ok = True, unlink_ok = True\<rparr>, Enqueue ''Charging'')]
               @ [(\<lparr>now = 3, write_ok = True, unlink_ok = True\<rparr>, CallNext ''Charging'')])
           init_state))))
       = ''closed''"
proof -
  let ?e = "\<lparr>now = 4, write_ok = False, unlink_ok = True\<rparr>"
  let ?st = "exec ([(\<lparr>now = 1, write_ok = True, unlink_ok = True\<rparr>, Enqueue ''Charging''),
                (\<lparr>now = 2, write_ok = True, unlink_ok = True\<rparr>, Enqueue ''Charging'')]
               @ [(\<lparr>now = 3, write_ok = True, unlink_ok = True\<rparr>, CallNext ''Charging'')])
           init_state"
  let ?c1 = "\<lparr>number = ''C1'', service = ''Charging'', timestamp = 1\<rparr>"
  let ?c2 = "\<lparr>number = ''C2'', service = ''Charging'', timestamp = 2\<rparr>"
  have nw: "\<not> write_ok ?e"
    by simp
  have station: "''Charging'' \<in> set stations"
    by (simp add: stations_def)
  have q: "js_get (queues ?st) ''Charging'' = Arr (?c2 # [])"
    by (simp only: one_called_state) (simp add: js_get_def init_state_def)
  have n: "js_get (queueNumbers ?st) ''Charging'' = Num 2"
    by (simp only: one_called_state) (simp add: js_get_def init_state_def)
  have ls: "js_get (lastServed ?st) ''Charging'' = User ?c1"
    by (simp only: one_called_state) (simp add: js_get_def init_state_def)
  have len: "length (?c2 # []) < maxQueueLength"
    by (simp add: maxQueueLength_def)
  note th = write_failure_propagates [OF nw, of "Enqueue ''Charging''" ?st]
  from th station q n len
  have enq: "fst (step ?e (Enqueue ''Charging'') ?st) = Inl WriteFailed
      \<and> waiting_of (fst (snd (step ?e (Enqueue ''Charging'') ?st))) ''Charging''
          = (?c2 # []) @ [\<lparr>number = hd ''Charging'' # show_nat (Suc 2), service = ''Charging'',
                           timestamp = now ?e\<rparr>]"
    by blast
  from th station q
  have call: "fst (step ?e (CallNext ''Charging'') ?st) = Inl WriteFailed
      \<and> js_get (currentServing (fst (snd (step ?e (CallNext ''Charging'') ?st)))) ''Charging''
          = User ?c2"
    by blast
  from th station ls
  have rec: "fst (step ?e (Recall ''Charging'') ?st) = Inl WriteFailed"
    by blast
  from th
  have ann: "fst (step ?e (SetAnnouncement ''closed'') ?st) = Inl WriteFailed
      \<and> fst (snd (step ?e (SetAnnouncement ''closed'') ?st))
          = ?st\<lparr>currentAnnouncement := ''closed''\<rparr>"
    by blast
  have c3: "show_nat 3 = ''3''"
    by (simp add: show_nat.simps digit_char_def)
  from nw station enq call rec ann show ?thesis
    by (simp add: c3)
qed

text \<open>
  Claim C2 as stated fails: on the fresh state, Enqueue at Charging answers C1 when the
  snapshot is written, and ends with the exception of the write when it is not.
\<close>

theorem write_failure_changes_result:
  "fst (enqueue \<lparr>now = 0, write_ok = False, unlink_ok = True\<rparr> ''Charging'' init_state)
     = Inl WriteFailed
   \<and> is_fault WriteFailed
   \<and> fst (enqueue \<lparr>now = 0, write_ok = True, unlink_ok = True\<rparr> ''Charging'' init_state)
     = Inr (NumberReply ''C1'')"
  by (simp add: run_defs)

subsection \<open>Names that are not stations, in reachable states\<close>

text \<open>
  In every reachable state a call at a name other than the three stations ends in a
  \<^verbatim>\<open>TypeError\<close> and leaves the state as it is.
\<close>

lemma callNext_unconfigured_reachable:
  assumes "s \<notin> set stations"
  shows "callNext e s (exec rs init_state) = (Inl TypeError, exec rs init_state, [])"
proof -
  have "consistent (exec rs init_state)"
    by (rule consistent_reachable)
  then have "map fst (queues (exec rs init_state)) = stations"
    by (simp add: consistent_def)
  then show ?thesis
    using assms by (rule callNext_not_station)
qed

text \<open>
  The test \<^verbatim>\<open>!queues[service]\<close> of POST /queue lets the names through that
  \<^verbatim>\<open>Object.prototype\<close> defines: at \<^verbatim>\<open>toString\<close> the counter object gets an own
  property \<^verbatim>\<open>NaN\<close>, and \<^verbatim>\<open>push\<close> on the inherited function is a \<^verbatim>\<open>TypeError\<close>.
\<close>

lemma enqueue_inherited_name:
  "enqueue e ''toString'' init_state
     = (Inl TypeError,
        init_state\<lparr>queueNumbers := queueNumbers init_state @ [(''toString'', NaN)]\<rparr>,
        [])"
  by (simp add: enqueue_def generateQueueNumber_def addToQueue_def Let_def js_get_def
      js_set_def js_incr_def init_state_def object_prototype_names_def builtin_length_def
      maxQueueLength_def)

end
